theory Spec2Isabelle
  imports Main
begin

section \<open>Python values, errors and dictionaries\<close>

text \<open>
  The module \<^verbatim>\<open>AlgoliaSearch/models.py\<close> moves attribute values of Django model
  instances into JSON objects and hands them to the Algolia client. The values are
  opaque to the module: it only tests them for truth, for being callable, for being
  a tuple, and subscripts them. The datatype below keeps exactly these distinctions.
  A callable attribute carries what calling it with no argument yields
  (a value, or the exception it raises). Numbers are represented by \<open>PInt\<close>.
\<close>

datatype algolia_msg =
    NotAField string
  | GeoFieldNotTuple

datatype error =
    AlgoliaIndexError algolia_msg
  | AttributeError string
  | TypeError
  | IndexError
  | KeyError string
  | ValueError
  | RemoteError string

datatype pyval =
    PNone
  | PBool bool
  | PInt int
  | PStr string
  | PTuple "pyval list"
  | PList "pyval list"
  | PDict "(string \<times> pyval) list"
  | PCallable "error + pyval"

type_synonym dict = "(string \<times> pyval) list"

text \<open>Python's truth value of an object, as tested by \<^verbatim>\<open>if x:\<close>.\<close>

fun truthy :: "pyval \<Rightarrow> bool" where
  "truthy PNone = False"
| "truthy (PBool b) = b"
| "truthy (PInt i) = (i \<noteq> 0)"
| "truthy (PStr s) = (s \<noteq> [])"
| "truthy (PTuple xs) = (xs \<noteq> [])"
| "truthy (PList xs) = (xs \<noteq> [])"
| "truthy (PDict d) = (d \<noteq> [])"
| "truthy (PCallable r) = True"

text \<open>
  Class attributes that are either \<^verbatim>\<open>None\<close> or a string
  (\<^verbatim>\<open>geo_field\<close>, \<^verbatim>\<open>index_name\<close>, the two Django settings): both
  \<^verbatim>\<open>None\<close> and the empty string are false.
\<close>

fun str_truthy :: "string option \<Rightarrow> bool" where
  "str_truthy None = False"
| "str_truthy (Some s) = (s \<noteq> [])"

fun py_callable :: "pyval \<Rightarrow> bool" where
  "py_callable (PCallable r) = True"
| "py_callable v = False"

fun py_call :: "pyval \<Rightarrow> error + pyval" where
  "py_call (PCallable r) = r"
| "py_call v = Inl TypeError"

fun is_tuple :: "pyval \<Rightarrow> bool" where
  "is_tuple (PTuple xs) = True"
| "is_tuple v = False"

text \<open>\<^verbatim>\<open>attr[i]\<close> for a non-negative integer literal \<open>i\<close>.\<close>

fun py_index :: "pyval \<Rightarrow> nat \<Rightarrow> error + pyval" where
  "py_index (PTuple xs) i = (if i < length xs then Inr (xs ! i) else Inl IndexError)"
| "py_index (PList xs) i = (if i < length xs then Inr (xs ! i) else Inl IndexError)"
| "py_index (PStr s) i = (if i < length s then Inr (PStr [s ! i]) else Inl IndexError)"
| "py_index (PDict d) i = Inl (KeyError [])"
| "py_index v i = Inl TypeError"

text \<open>\<^verbatim>\<open>result['taskID']\<close>: subscripting with a string key.\<close>

fun py_getitem :: "pyval \<Rightarrow> string \<Rightarrow> error + pyval" where
  "py_getitem (PDict d) k = (case map_of d k of None \<Rightarrow> Inl (KeyError k) | Some v \<Rightarrow> Inr v)"
| "py_getitem v k = Inl TypeError"

text \<open>
  \<^verbatim>\<open>tmp[key] = value\<close> on a dictionary kept in insertion order: an existing key
  keeps its place and gets the new value, a new key goes to the end.
\<close>

fun dict_set :: "dict \<Rightarrow> string \<Rightarrow> pyval \<Rightarrow> dict" where
  "dict_set [] k v = [(k, v)]"
| "dict_set ((k', v') # d) k v = (if k' = k then (k, v) # d else (k', v') # dict_set d k v)"

section \<open>Model instances, model classes, the index class\<close>

record model_instance =
  pk :: pyval
  attrs :: dict

text \<open>\<^verbatim>\<open>getattr(instance, name)\<close>; \<^verbatim>\<open>pk\<close> is an attribute like the others.\<close>

definition py_getattr :: "model_instance \<Rightarrow> string \<Rightarrow> error + pyval" where
  "py_getattr inst name =
     (if name = ''pk'' then Inr (pk inst)
      else case map_of (attrs inst) name of
             None \<Rightarrow> Inl (AttributeError name)
           | Some v \<Rightarrow> Inr v)"

text \<open>
  What the module uses of a Django model class: \<^verbatim>\<open>model.__name__\<close>,
  \<^verbatim>\<open>model._meta.get_all_field_names()\<close>, \<^verbatim>\<open>getattr(model, name)\<close> on the
  class itself, a fresh instance \<^verbatim>\<open>model()\<close>, and \<^verbatim>\<open>model.objects.all()\<close>.
\<close>

record django_model =
  model_name :: string
  all_field_names :: "string list"
  class_attrs :: dict
  new_instance :: model_instance
  objects_all :: "model_instance list"

definition class_getattr :: "django_model \<Rightarrow> string \<Rightarrow> error + pyval" where
  "class_getattr m name =
     (case map_of (class_attrs m) name of
        None \<Rightarrow> Inl (AttributeError name)
      | Some v \<Rightarrow> Inr v)"

text \<open>
  \<^verbatim>\<open>settings.ALGOLIA_INDEX_PREFIX\<close> and \<^verbatim>\<open>settings.ALGOLIA_INDEX_SUFFIX\<close>. A
  project may define a setting, as \<^verbatim>\<open>None\<close> or as a string, or not define it at
  all; the module reads both with no default, and Django's settings object raises
  \<^verbatim>\<open>AttributeError\<close> for a setting that is not defined.
\<close>

datatype setting =
    NotDefined
  | Defined "string option"

record django_settings =
  ALGOLIA_INDEX_PREFIX :: setting
  ALGOLIA_INDEX_SUFFIX :: setting

fun read_setting :: "string \<Rightarrow> setting \<Rightarrow> error + string option" where
  "read_setting name NotDefined = Inl (AttributeError name)"
| "read_setting name (Defined v) = Inr v"

text \<open>
  The class attributes a subclass of \<^verbatim>\<open>AlgoliaIndex\<close> declares. \<^verbatim>\<open>fields\<close> is a
  single string or a sequence of strings.
\<close>

datatype fields_decl =
    FieldsStr string
  | FieldsSeq "string list"

record index_class =
  decl_fields :: fields_decl
  decl_geo_field :: "string option"
  decl_index_name :: "string option"
  decl_settings :: dict

text \<open>
  The state of an \<^verbatim>\<open>AlgoliaIndex\<close> object after \<^verbatim>\<open>__init__\<close>. The two index
  handles \<^verbatim>\<open>__index\<close> and \<^verbatim>\<open>__tmp_index\<close> are kept as the names they were
  created with by \<^verbatim>\<open>client.init_index\<close>; \<open>index_fields\<close> is \<^verbatim>\<open>self.fields\<close>.
\<close>

record binding =
  model :: django_model
  index_fields :: "string list"
  geo_field :: "string option"
  index_name :: string
  settings :: dict
  index :: string
  tmp_index :: string

section \<open>Construction\<close>

text \<open>
  \<^verbatim>\<open>__set_index\<close>: the index name, as declared or else the model's class name,
  then with the prefix and the suffix, each read from the settings and used when it
  is true. The result holds the three attributes the method assigns:
  \<^verbatim>\<open>index_name\<close>, and the names the handles \<^verbatim>\<open>__index\<close> and \<^verbatim>\<open>__tmp_index\<close> are
  created with.
\<close>

definition set_index ::
  "django_settings \<Rightarrow> django_model \<Rightarrow> index_class \<Rightarrow> error + string \<times> string \<times> string" where
  "set_index conf m decl =
     (let n0 = (if \<not> str_truthy (decl_index_name decl) then model_name m
                else the (decl_index_name decl))
      in case read_setting ''ALGOLIA_INDEX_PREFIX'' (ALGOLIA_INDEX_PREFIX conf) of
           Inl e \<Rightarrow> Inl e
         | Inr prefix \<Rightarrow>
            (let n1 = (if str_truthy prefix then the prefix @ ''_'' @ n0 else n0)
             in case read_setting ''ALGOLIA_INDEX_SUFFIX'' (ALGOLIA_INDEX_SUFFIX conf) of
                  Inl e \<Rightarrow> Inl e
                | Inr suffix \<Rightarrow>
                   (let n2 = (if str_truthy suffix then n1 @ ''_'' @ the suffix else n1)
                    in Inr (n2, n2, n2 @ ''_tmp''))))"

text \<open>The loop of \<^verbatim>\<open>__init__\<close> that checks the declared fields on a fresh instance.\<close>

fun check_fields :: "model_instance \<Rightarrow> string list \<Rightarrow> string list \<Rightarrow> error + unit" where
  "check_fields inst all_fields [] = Inr ()"
| "check_fields inst all_fields (field # rest) =
     (case py_getattr inst field of
        Inl e \<Rightarrow> Inl e
      | Inr attr \<Rightarrow>
          if py_callable attr then check_fields inst all_fields rest
          else if field \<notin> set all_fields then Inl (AlgoliaIndexError (NotAField field))
          else check_fields inst all_fields rest)"

definition check_geo_field :: "django_model \<Rightarrow> string option \<Rightarrow> error + unit" where
  "check_geo_field m g =
     (if str_truthy g then
        (case class_getattr m (the g) of
           Inl e \<Rightarrow> Inl e
         | Inr attr \<Rightarrow>
             if \<not> (is_tuple attr \<or> py_callable attr)
             then Inl (AlgoliaIndexError GeoFieldNotTuple)
             else Inr ())
      else Inr ())"

text \<open>
  \<^verbatim>\<open>self.fields = all_fields; self.fields.remove('id')\<close>: \<^verbatim>\<open>list.remove\<close>
  deletes the first occurrence and raises \<^verbatim>\<open>ValueError\<close> when there is none.
\<close>

definition default_fields :: "string list \<Rightarrow> error + string list" where
  "default_fields all_fields =
     (if ''id'' \<in> set all_fields then Inr (remove1 ''id'' all_fields) else Inl ValueError)"

text \<open>
  \<^verbatim>\<open>if isinstance(self.fields, str): self.fields = (self.fields, )\<close>.
\<close>

fun normalize_fields :: "fields_decl \<Rightarrow> string list" where
  "normalize_fields (FieldsStr s) = [s]"
| "normalize_fields (FieldsSeq fs) = fs"

definition init :: "django_settings \<Rightarrow> django_model \<Rightarrow> index_class \<Rightarrow> error + binding" where
  "init conf m decl =
     (case set_index conf m decl of
        Inl e \<Rightarrow> Inl e
      | Inr (name, idx, tmp_idx) \<Rightarrow>
         (let self = \<lparr> model = m,
                       index_fields = [],
                       geo_field = decl_geo_field decl,
                       index_name = name,
                       settings = decl_settings decl,
                       index = idx,
                       tmp_index = tmp_idx \<rparr>;
              all_fields = all_field_names m;
              fields1 = normalize_fields (decl_fields decl);
              inst = new_instance m
          in case check_fields inst all_fields fields1 of
               Inl e \<Rightarrow> Inl e
             | Inr u \<Rightarrow>
                (case check_geo_field m (geo_field self) of
                   Inl e \<Rightarrow> Inl e
                 | Inr u' \<Rightarrow>
                     if fields1 = [] then
                       (case default_fields all_fields of
                          Inl e \<Rightarrow> Inl e
                        | Inr fs \<Rightarrow> Inr (self\<lparr>index_fields := fs\<rparr>))
                     else Inr (self\<lparr>index_fields := fields1\<rparr>))))"

section \<open>Building the JSON object\<close>

text \<open>
  Lines 80 to 82 and 85 to 87 of the source are the same three statements: read the
  attribute, and call it when it is callable.
\<close>

definition read_attr :: "model_instance \<Rightarrow> string \<Rightarrow> error + pyval" where
  "read_attr inst name =
     (case py_getattr inst name of
        Inl e \<Rightarrow> Inl e
      | Inr attr \<Rightarrow> if py_callable attr then py_call attr else Inr attr)"

fun build_fields :: "model_instance \<Rightarrow> string list \<Rightarrow> dict \<Rightarrow> error + dict" where
  "build_fields inst [] tmp = Inr tmp"
| "build_fields inst (field # rest) tmp =
     (case read_attr inst field of
        Inl e \<Rightarrow> Inl e
      | Inr attr \<Rightarrow> build_fields inst rest (dict_set tmp field attr))"

definition build_geoloc :: "pyval \<Rightarrow> error + pyval" where
  "build_geoloc attr =
     (case py_index attr 0 of
        Inl e \<Rightarrow> Inl e
      | Inr lat \<Rightarrow>
         (case py_index attr 1 of
            Inl e \<Rightarrow> Inl e
          | Inr lng \<Rightarrow> Inr (PDict [(''lat'', lat), (''lng'', lng)])))"

definition build_object :: "binding \<Rightarrow> model_instance \<Rightarrow> error + dict" where
  "build_object self inst =
     (case build_fields inst (index_fields self) [(''objectID'', pk inst)] of
        Inl e \<Rightarrow> Inl e
      | Inr tmp \<Rightarrow>
          if str_truthy (geo_field self) then
            (case read_attr inst (the (geo_field self)) of
               Inl e \<Rightarrow> Inl e
             | Inr attr \<Rightarrow>
                (case build_geoloc attr of
                   Inl e \<Rightarrow> Inl e
                 | Inr g \<Rightarrow> Inr (dict_set tmp ''_geoloc'' g)))
          else Inr tmp)"

section \<open>The Algolia client\<close>

text \<open>
  The client library is not part of the module: it is a parameter. A call names the
  index it is made on (the name the handle was created with); \<^verbatim>\<open>move_index\<close> is a
  method of the client itself and names two indices. The engine is a state machine
  over a state \<open>'c\<close> of its own: a call yields the next state and either the
  value the call returns or the exception it raises.
\<close>

datatype call =
    SetSettings string dict
  | ClearIndex string
  | SaveObjects string "dict list"
  | WaitTask string pyval
  | MoveIndex string string

type_synonym outcome = "error + pyval"

type_synonym 'c engine = "'c \<Rightarrow> call \<Rightarrow> 'c \<times> outcome"

text \<open>The index names a call operates on.\<close>

fun targets :: "call \<Rightarrow> string list" where
  "targets (SetSettings n s) = [n]"
| "targets (ClearIndex n) = [n]"
| "targets (SaveObjects n b) = [n]"
| "targets (WaitTask n t) = [n]"
| "targets (MoveIndex src dst) = [src, dst]"

text \<open>
  The world a rebuild runs in: the engine's state, and the trace of the calls made so
  far, each with its outcome.
\<close>

record 'c world =
  client :: 'c
  trace :: "(call \<times> outcome) list"

definition remote :: "'c engine \<Rightarrow> call \<Rightarrow> 'c world \<Rightarrow> outcome \<times> 'c world" where
  "remote eng c w =
     (case eng (client w) c of
        (c', out) \<Rightarrow> (out, \<lparr> client = c', trace = trace w @ [(c, out)] \<rparr>))"

section \<open>The two rebuilds\<close>

text \<open>\<^verbatim>\<open>set_settings\<close> and \<^verbatim>\<open>clear_index\<close>, both on the primary handle.\<close>

definition set_settings :: "'c engine \<Rightarrow> binding \<Rightarrow> 'c world \<Rightarrow> outcome \<times> 'c world" where
  "set_settings eng self w =
     (if settings self \<noteq> [] then remote eng (SetSettings (index self) (settings self)) w
      else (Inr PNone, w))"

definition clear_index :: "'c engine \<Rightarrow> binding \<Rightarrow> 'c world \<Rightarrow> outcome \<times> 'c world" where
  "clear_index eng self w = remote eng (ClearIndex (index self)) w"

text \<open>
  The \<^verbatim>\<open>for\<close> loop of \<^verbatim>\<open>index_all\<close> over the instances still to come, with the
  loop's variables \<^verbatim>\<open>counts\<close> and \<^verbatim>\<open>batch\<close>. An exception leaves the loop with
  the world as it is then.
\<close>

fun index_all_loop ::
  "'c engine \<Rightarrow> binding \<Rightarrow> int \<Rightarrow> model_instance list \<Rightarrow> int \<Rightarrow> dict list \<Rightarrow> 'c world
    \<Rightarrow> (error + int \<times> dict list) \<times> 'c world" where
  "index_all_loop eng self batch_size [] counts batch w = (Inr (counts, batch), w)"
| "index_all_loop eng self batch_size (inst # rest) counts batch w =
     (case build_object self inst of
        Inl e \<Rightarrow> (Inl e, w)
      | Inr obj \<Rightarrow>
          if int (length (batch @ [obj])) \<ge> batch_size then
            (case remote eng (SaveObjects (index self) (batch @ [obj])) w of
               (Inl e, w') \<Rightarrow> (Inl e, w')
             | (Inr r, w') \<Rightarrow> index_all_loop eng self batch_size rest (counts + 1) [] w')
          else index_all_loop eng self batch_size rest (counts + 1) (batch @ [obj]) w)"

definition index_all :: "'c engine \<Rightarrow> binding \<Rightarrow> int \<Rightarrow> 'c world \<Rightarrow> (error + int) \<times> 'c world" where
  "index_all eng self batch_size w =
     (case set_settings eng self w of
        (Inl e, w1) \<Rightarrow> (Inl e, w1)
      | (Inr r1, w1) \<Rightarrow>
         (case clear_index eng self w1 of
            (Inl e, w2) \<Rightarrow> (Inl e, w2)
          | (Inr r2, w2) \<Rightarrow>
             (case index_all_loop eng self batch_size (objects_all (model self)) 0 [] w2 of
                (Inl e, w3) \<Rightarrow> (Inl e, w3)
              | (Inr (counts, batch), w3) \<Rightarrow>
                  if length batch > 0 then
                    (case remote eng (SaveObjects (index self) batch) w3 of
                       (Inl e, w4) \<Rightarrow> (Inl e, w4)
                     | (Inr r4, w4) \<Rightarrow> (Inr counts, w4))
                  else (Inr counts, w3))))"

text \<open>
  The loop of \<^verbatim>\<open>reindex_all\<close>: the same, on the shadow handle, and keeping in
  \<^verbatim>\<open>result\<close> what the last \<^verbatim>\<open>save_objects\<close> returned.
\<close>

fun reindex_all_loop ::
  "'c engine \<Rightarrow> binding \<Rightarrow> int \<Rightarrow> model_instance list \<Rightarrow> pyval \<Rightarrow> int \<Rightarrow> dict list \<Rightarrow> 'c world
    \<Rightarrow> (error + pyval \<times> int \<times> dict list) \<times> 'c world" where
  "reindex_all_loop eng self batch_size [] result counts batch w = (Inr (result, counts, batch), w)"
| "reindex_all_loop eng self batch_size (inst # rest) result counts batch w =
     (case build_object self inst of
        Inl e \<Rightarrow> (Inl e, w)
      | Inr obj \<Rightarrow>
          if int (length (batch @ [obj])) \<ge> batch_size then
            (case remote eng (SaveObjects (tmp_index self) (batch @ [obj])) w of
               (Inl e, w') \<Rightarrow> (Inl e, w')
             | (Inr r, w') \<Rightarrow> reindex_all_loop eng self batch_size rest r (counts + 1) [] w')
          else reindex_all_loop eng self batch_size rest result (counts + 1) (batch @ [obj]) w)"

text \<open>
  The last three statements of \<^verbatim>\<open>reindex_all\<close>: when \<^verbatim>\<open>result\<close> is true, wait for
  its task on the shadow handle, then move the shadow index onto the primary name.
\<close>

definition wait_and_move :: "'c engine \<Rightarrow> binding \<Rightarrow> pyval \<Rightarrow> int \<Rightarrow> 'c world \<Rightarrow> (error + int) \<times> 'c world" where
  "wait_and_move eng self result counts w =
     (if truthy result then
        (case py_getitem result ''taskID'' of
           Inl e \<Rightarrow> (Inl e, w)
         | Inr task \<Rightarrow>
            (case remote eng (WaitTask (tmp_index self) task) w of
               (Inl e, w1) \<Rightarrow> (Inl e, w1)
             | (Inr r1, w1) \<Rightarrow>
                (case remote eng (MoveIndex (index_name self @ ''_tmp'') (index_name self)) w1 of
                   (Inl e, w2) \<Rightarrow> (Inl e, w2)
                 | (Inr r2, w2) \<Rightarrow> (Inr counts, w2))))
      else (Inr counts, w))"

definition reindex_all :: "'c engine \<Rightarrow> binding \<Rightarrow> int \<Rightarrow> 'c world \<Rightarrow> (error + int) \<times> 'c world" where
  "reindex_all eng self batch_size w =
     (case (if settings self \<noteq> []
            then remote eng (SetSettings (tmp_index self) (settings self)) w
            else (Inr PNone, w)) of
        (Inl e, w1) \<Rightarrow> (Inl e, w1)
      | (Inr r1, w1) \<Rightarrow>
         (case remote eng (ClearIndex (tmp_index self)) w1 of
            (Inl e, w2) \<Rightarrow> (Inl e, w2)
          | (Inr r2, w2) \<Rightarrow>
             (case reindex_all_loop eng self batch_size (objects_all (model self)) PNone 0 [] w2 of
                (Inl e, w3) \<Rightarrow> (Inl e, w3)
              | (Inr (result, counts, batch), w3) \<Rightarrow>
                  if length batch > 0 then
                    (case remote eng (SaveObjects (tmp_index self) batch) w3 of
                       (Inl e, w4) \<Rightarrow> (Inl e, w4)
                     | (Inr result', w4) \<Rightarrow> wait_and_move eng self result' counts w4)
                  else wait_and_move eng self result counts w3)))"

section \<open>Reading traces\<close>

text \<open>
  The engine's state after a sequence of calls, the outcomes it gives to them, and
  the statement that a world \<open>w'\<close> is the world \<open>w\<close> after the calls of \<open>new\<close>,
  made in this order and answered by the engine with these outcomes.
\<close>

fun run :: "'c engine \<Rightarrow> 'c \<Rightarrow> call list \<Rightarrow> 'c" where
  "run eng c [] = c"
| "run eng c (x # xs) = run eng (fst (eng c x)) xs"

fun outcomes :: "'c engine \<Rightarrow> 'c \<Rightarrow> call list \<Rightarrow> (call \<times> outcome) list" where
  "outcomes eng c [] = []"
| "outcomes eng c (x # xs) = (x, snd (eng c x)) # outcomes eng (fst (eng c x)) xs"

definition extends :: "'c engine \<Rightarrow> 'c world \<Rightarrow> (call \<times> outcome) list \<Rightarrow> 'c world \<Rightarrow> bool" where
  "extends eng w new w' =
     (trace w' = trace w @ new
      \<and> client w' = run eng (client w) (map fst new)
      \<and> new = outcomes eng (client w) (map fst new))"

text \<open>
  The engine keeps its indices apart when a call leaves every index it does not name
  as it was; \<open>view c n\<close> is what the engine in state \<open>c\<close> holds under the name \<open>n\<close>.
\<close>

definition respects_frame :: "'c engine \<Rightarrow> ('c \<Rightarrow> string \<Rightarrow> 'v) \<Rightarrow> bool" where
  "respects_frame eng view =
     (\<forall>c x n. n \<notin> set (targets x) \<longrightarrow> view (fst (eng c x)) n = view c n)"

text \<open>The batches of the \<^verbatim>\<open>save_objects\<close> calls of a trace, in order.\<close>

fun saved_batches :: "(call \<times> outcome) list \<Rightarrow> dict list list" where
  "saved_batches [] = []"
| "saved_batches ((SaveObjects n b, out) # evs) = b # saved_batches evs"
| "saved_batches (ev # evs) = saved_batches evs"

fun is_clear :: "call \<Rightarrow> bool" where
  "is_clear (ClearIndex n) = True"
| "is_clear x = False"

fun is_move :: "call \<Rightarrow> bool" where
  "is_move (MoveIndex src dst) = True"
| "is_move x = False"

fun is_wait :: "call \<Rightarrow> bool" where
  "is_wait (WaitTask n t) = True"
| "is_wait x = False"

fun is_save :: "call \<Rightarrow> bool" where
  "is_save (SaveObjects n b) = True"
| "is_save x = False"

section \<open>Concrete inputs\<close>

text \<open>
  A model \<^verbatim>\<open>Article\<close> with the fields \<^verbatim>\<open>id\<close> and \<^verbatim>\<open>title\<close>, a class attribute
  \<^verbatim>\<open>loc\<close> holding a pair, a method \<^verbatim>\<open>slug\<close>, and three rows in the database.
\<close>

definition article :: "int \<Rightarrow> string \<Rightarrow> model_instance" where
  "article i t =
     \<lparr> pk = PInt i,
       attrs = [(''id'', PInt i), (''title'', PStr t), (''loc'', PTuple [PInt 1, PInt 2]),
                (''slug'', PCallable (Inr (PStr t)))] \<rparr>"

definition Article :: django_model where
  "Article =
     \<lparr> model_name = ''Article'',
       all_field_names = [''id'', ''title''],
       class_attrs = [(''loc'', PTuple [PInt 1, PInt 2]), (''slug'', PCallable (Inr PNone)),
                      (''objects'', PNone)],
       new_instance = \<lparr> pk = PNone,
                        attrs = [(''id'', PNone), (''title'', PStr []),
                                 (''loc'', PTuple [PInt 1, PInt 2]),
                                 (''slug'', PCallable (Inr (PStr [])))] \<rparr>,
       objects_all = [article 7 ''x'', article 8 ''y'', article 9 ''z''] \<rparr>"

definition no_affixes :: django_settings where
  "no_affixes = \<lparr> ALGOLIA_INDEX_PREFIX = Defined None, ALGOLIA_INDEX_SUFFIX = Defined None \<rparr>"

text \<open>
  A project that defines neither setting, one that defines both, and a model class
  whose name is the empty string (as \<^verbatim>\<open>type('', (Model,), ...)\<close> makes one).
\<close>

definition undefined_affixes :: django_settings where
  "undefined_affixes = \<lparr> ALGOLIA_INDEX_PREFIX = NotDefined, ALGOLIA_INDEX_SUFFIX = NotDefined \<rparr>"

definition dev_v2_affixes :: django_settings where
  "dev_v2_affixes =
     \<lparr> ALGOLIA_INDEX_PREFIX = Defined (Some ''dev''), ALGOLIA_INDEX_SUFFIX = Defined (Some ''v2'') \<rparr>"

definition Nameless :: django_model where
  "Nameless =
     \<lparr> model_name = [],
       all_field_names = [''id''],
       class_attrs = [],
       new_instance = \<lparr> pk = PNone, attrs = [(''id'', PNone)] \<rparr>,
       objects_all = [] \<rparr>"

definition ArticleIndex :: index_class where
  "ArticleIndex =
     \<lparr> decl_fields = FieldsSeq [''title''],
       decl_geo_field = Some ''loc'',
       decl_index_name = None,
       decl_settings = [(''attributesToIndex'', PList [PStr ''title''])] \<rparr>"

definition article_binding :: binding where
  "article_binding =
     \<lparr> model = Article,
       index_fields = [''title''],
       geo_field = Some ''loc'',
       index_name = ''Article'',
       settings = [(''attributesToIndex'', PList [PStr ''title''])],
       index = ''Article'',
       tmp_index = ''Article_tmp'' \<rparr>"

text \<open>
  An engine that keeps, for every index name, the objects saved under it, and numbers
  its tasks: \<^verbatim>\<open>save_objects\<close> answers with a dictionary holding the task's number.
\<close>

fun store_engine :: "(nat \<times> (string \<Rightarrow> dict list)) engine" where
  "store_engine (t, st) (SetSettings n s) = ((t, st), Inr PNone)"
| "store_engine (t, st) (ClearIndex n) = ((t, st(n := [])), Inr PNone)"
| "store_engine (t, st) (SaveObjects n b) =
     ((Suc t, st(n := st n @ b)), Inr (PDict [(''taskID'', PInt (int t))]))"
| "store_engine (t, st) (WaitTask n task) = ((t, st), Inr PNone)"
| "store_engine (t, st) (MoveIndex src dst) = ((t, st(dst := st src, src := [])), Inr PNone)"

text \<open>
  The same model with a class attribute \<^verbatim>\<open>loc\<close> of three elements; a model whose
  primary key is the field \<^verbatim>\<open>code\<close>, so that it has no field \<^verbatim>\<open>id\<close>; and a
  model with a field that is itself named \<^verbatim>\<open>objectID\<close>.
\<close>

definition ArticleTriple :: django_model where
  "ArticleTriple = Article\<lparr>class_attrs := [(''loc'', PTuple [PInt 1, PInt 2, PInt 3])]\<rparr>"

definition Coded :: django_model where
  "Coded =
     \<lparr> model_name = ''Coded'',
       all_field_names = [''code'', ''title''],
       class_attrs = [],
       new_instance = \<lparr> pk = PNone, attrs = [(''code'', PNone), (''title'', PStr [])] \<rparr>,
       objects_all = [] \<rparr>"

definition Mirror :: django_model where
  "Mirror =
     \<lparr> model_name = ''Mirror'',
       all_field_names = [''id'', ''objectID''],
       class_attrs = [],
       new_instance = \<lparr> pk = PNone, attrs = [(''id'', PNone), (''objectID'', PNone)] \<rparr>,
       objects_all = [] \<rparr>"

definition mirror_row :: model_instance where
  "mirror_row = \<lparr> pk = PInt 7, attrs = [(''id'', PInt 7), (''objectID'', PInt 99)] \<rparr>"

definition plain_index :: "fields_decl \<Rightarrow> index_class" where
  "plain_index fs =
     \<lparr> decl_fields = fs, decl_geo_field = None, decl_index_name = None, decl_settings = [] \<rparr>"

definition mirror_binding :: binding where
  "mirror_binding =
     \<lparr> model = Mirror,
       index_fields = [''objectID''],
       geo_field = None,
       index_name = ''Mirror'',
       settings = [],
       index = ''Mirror'',
       tmp_index = ''Mirror_tmp'' \<rparr>"

text \<open>
  The same engine, except that \<^verbatim>\<open>save_objects\<close> answers with an empty dictionary.
\<close>

fun mute_engine :: "(nat \<times> (string \<Rightarrow> dict list)) engine" where
  "mute_engine (t, st) (SaveObjects n b) = ((Suc t, st(n := st n @ b)), Inr (PDict []))"
| "mute_engine c x = store_engine c x"

text \<open>The document of an \<open>article\<close> under \<open>article_binding\<close>.\<close>

definition article_doc :: "int \<Rightarrow> string \<Rightarrow> dict" where
  "article_doc i t =
     [(''objectID'', PInt i), (''title'', PStr t),
      (''_geoloc'', PDict [(''lat'', PInt 1), (''lng'', PInt 2)])]"

text \<open>The same engine, except that waiting for a task times out.\<close>

fun flaky_engine :: "(nat \<times> (string \<Rightarrow> dict list)) engine" where
  "flaky_engine c (WaitTask n task) = (c, Inl (RemoteError ''timeout''))"
| "flaky_engine c x = store_engine c x"

definition coded_binding :: binding where
  "coded_binding =
     \<lparr> model = Coded,
       index_fields = [''title''],
       geo_field = None,
       index_name = ''Coded'',
       settings = [],
       index = ''Coded'',
       tmp_index = ''Coded_tmp'' \<rparr>"

definition empty_world :: "(nat \<times> (string \<Rightarrow> dict list)) world" where
  "empty_world = \<lparr> client = (0, \<lambda>n. []), trace = [] \<rparr>"

section \<open>Dictionaries and the object builder\<close>

lemma map_of_dict_set: "map_of (dict_set d k v) = (map_of d)(k \<mapsto> v)"
  by (induction d k v rule: dict_set.induct) auto

lemma keys_dict_set: "fst ` set (dict_set d k v) = insert k (fst ` set d)"
  by (induction d k v rule: dict_set.induct) auto

lemma distinct_dict_set: "distinct (map fst d) \<Longrightarrow> distinct (map fst (dict_set d k v))"
  by (induction d k v rule: dict_set.induct) (auto simp: keys_dict_set)

lemma build_fields_total:
  "\<forall>f\<in>set fs. \<exists>v. read_attr inst f = Inr v \<Longrightarrow> \<exists>doc. build_fields inst fs tmp = Inr doc"
  by (induction fs arbitrary: tmp) auto

lemma build_fields_keys:
  "build_fields inst fs tmp = Inr doc \<Longrightarrow> fst ` set doc = fst ` set tmp \<union> set fs"
  by (induction fs arbitrary: tmp) (auto simp: keys_dict_set split: sum.splits)

lemma build_fields_distinct:
  "build_fields inst fs tmp = Inr doc \<Longrightarrow> distinct (map fst tmp) \<Longrightarrow> distinct (map fst doc)"
  by (induction fs arbitrary: tmp) (auto simp: distinct_dict_set split: sum.splits)

lemma build_fields_other:
  "build_fields inst fs tmp = Inr doc \<Longrightarrow> k \<notin> set fs \<Longrightarrow> map_of doc k = map_of tmp k"
  by (induction fs arbitrary: tmp) (auto simp: map_of_dict_set split: sum.splits)

lemma build_fields_value:
  "build_fields inst fs tmp = Inr doc \<Longrightarrow> f \<in> set fs \<Longrightarrow>
     \<exists>v. read_attr inst f = Inr v \<and> map_of doc f = Some v"
proof (induction fs arbitrary: tmp)
  case Nil
  then show ?case by simp
next
  case (Cons g gs)
  then obtain a where a: "read_attr inst g = Inr a"
    and rest: "build_fields inst gs (dict_set tmp g a) = Inr doc"
    by (auto split: sum.splits)
  show ?case
  proof (cases "f \<in> set gs")
    case True
    then show ?thesis using Cons.IH [OF rest] by simp
  next
    case False
    with Cons.prems have "f = g" by simp
    with False a build_fields_other [OF rest False] show ?thesis
      by (simp add: map_of_dict_set)
  qed
qed

lemmas example_defs =
  init_def set_index_def Article_def ArticleIndex_def
  no_affixes_def article_binding_def check_geo_field_def class_getattr_def py_getattr_def
  Let_def ArticleTriple_def Coded_def Mirror_def mirror_row_def plain_index_def
  mirror_binding_def default_fields_def article_def coded_binding_def
  undefined_affixes_def dev_v2_affixes_def Nameless_def

lemma build_object_returns:
  assumes "\<forall>f\<in>set (index_fields self). \<exists>v. read_attr inst f = Inr v"
      and "str_truthy (geo_field self) \<longrightarrow>
             (\<exists>a lat lng. read_attr inst (the (geo_field self)) = Inr a
                \<and> py_index a 0 = Inr lat \<and> py_index a 1 = Inr lng)"
  shows "\<exists>doc. build_object self inst = Inr doc"
proof -
  from build_fields_total [OF assms(1)]
  obtain tmp where "build_fields inst (index_fields self) [(''objectID'', pk inst)] = Inr tmp"
    by blast
  with assms(2) show ?thesis
    by (auto simp: build_object_def build_geoloc_def)
qed

text \<open>
  Claim C3, as the code has it. Whenever \<^verbatim>\<open>__build_object\<close> returns a dictionary,
  and no configured field is itself named \<^verbatim>\<open>objectID\<close> (or \<^verbatim>\<open>_geoloc\<close> when a geo
  field is configured), the dictionary's keys are exactly \<^verbatim>\<open>objectID\<close>, the
  configured fields and, with a geo field, \<^verbatim>\<open>_geoloc\<close>, each once. \<^verbatim>\<open>objectID\<close>
  holds the record's primary key; every configured field holds the value of its
  attribute, the result of calling it with no argument when it is callable;
  \<^verbatim>\<open>_geoloc\<close> holds \<^verbatim>\<open>{lat: first element, lng: second element}\<close> of the geo
  attribute. So no configured field is left out of a dictionary that is returned: an
  attribute that cannot be read makes the builder raise.
\<close>

theorem build_object_document:
  assumes built: "build_object self inst = Inr doc"
      and oid: "''objectID'' \<notin> set (index_fields self)"
      and gl: "str_truthy (geo_field self) \<longrightarrow> ''_geoloc'' \<notin> set (index_fields self)"
  shows "distinct (map fst doc)
         \<and> set (map fst doc) = {''objectID''} \<union> set (index_fields self)
              \<union> (if str_truthy (geo_field self) then {''_geoloc''} else {})
         \<and> map_of doc ''objectID'' = Some (pk inst)
         \<and> (\<forall>f\<in>set (index_fields self). \<exists>a v. py_getattr inst f = Inr a
                \<and> (if py_callable a then py_call a else Inr a) = Inr v
                \<and> map_of doc f = Some v)
         \<and> (str_truthy (geo_field self) \<longrightarrow>
               (\<exists>a v lat lng. py_getattr inst (the (geo_field self)) = Inr a
                  \<and> (if py_callable a then py_call a else Inr a) = Inr v
                  \<and> py_index v 0 = Inr lat \<and> py_index v 1 = Inr lng
                  \<and> map_of doc ''_geoloc'' = Some (PDict [(''lat'', lat), (''lng'', lng)])))"
proof -
  from built
  obtain tmp where tmp: "build_fields inst (index_fields self) [(''objectID'', pk inst)] = Inr tmp"
    by (cases "build_fields inst (index_fields self) [(''objectID'', pk inst)]")
       (auto simp: build_object_def)
  have keys: "fst ` set tmp = {''objectID''} \<union> set (index_fields self)"
    using build_fields_keys [OF tmp] by simp
  have dist: "distinct (map fst tmp)"
    using build_fields_distinct [OF tmp] by simp
  have oid_tmp: "map_of tmp ''objectID'' = Some (pk inst)"
    using build_fields_other [OF tmp oid] by simp
  have vals: "\<forall>f\<in>set (index_fields self). \<exists>a v. py_getattr inst f = Inr a
                  \<and> (if py_callable a then py_call a else Inr a) = Inr v
                  \<and> map_of tmp f = Some v"
  proof
    fix f assume "f \<in> set (index_fields self)"
    from build_fields_value [OF tmp this]
    obtain v where "read_attr inst f = Inr v" "map_of tmp f = Some v" by blast
    then show "\<exists>a v. py_getattr inst f = Inr a
                  \<and> (if py_callable a then py_call a else Inr a) = Inr v
                  \<and> map_of tmp f = Some v"
      by (auto simp: read_attr_def split: sum.splits if_splits)
  qed
  show ?thesis
  proof (cases "str_truthy (geo_field self)")
    case False
    with built tmp have "doc = tmp"
      by (simp add: build_object_def)
    with False keys dist oid_tmp vals show ?thesis by simp
  next
    case True
    with built tmp obtain v g where v: "read_attr inst (the (geo_field self)) = Inr v"
      and g: "build_geoloc v = Inr g" and doc: "doc = dict_set tmp ''_geoloc'' g"
      by (auto simp: build_object_def split: sum.splits)
    from g obtain lat lng where lat: "py_index v 0 = Inr lat" and lng: "py_index v 1 = Inr lng"
      and g_eq: "g = PDict [(''lat'', lat), (''lng'', lng)]"
      by (auto simp: build_geoloc_def split: sum.splits)
    from v obtain a where a: "py_getattr inst (the (geo_field self)) = Inr a"
      "(if py_callable a then py_call a else Inr a) = Inr v"
      by (auto simp: read_attr_def split: sum.splits if_splits)
    have notin: "''_geoloc'' \<notin> set (index_fields self)" using gl True by simp
    have d: "distinct (map fst doc)" unfolding doc using dist by (rule distinct_dict_set)
    have "set (map fst doc) = {''objectID''} \<union> set (index_fields self) \<union> {''_geoloc''}"
      unfolding doc using keys by (auto simp: keys_dict_set)
    then have ks: "set (map fst doc) = {''objectID''} \<union> set (index_fields self)
                \<union> (if str_truthy (geo_field self) then {''_geoloc''} else {})"
      using True by simp
    have o: "map_of doc ''objectID'' = Some (pk inst)"
      unfolding doc using oid_tmp by (simp add: map_of_dict_set)
    have fs: "\<forall>f\<in>set (index_fields self). \<exists>a v. py_getattr inst f = Inr a
                  \<and> (if py_callable a then py_call a else Inr a) = Inr v
                  \<and> map_of doc f = Some v"
      unfolding doc using vals notin by (auto simp: map_of_dict_set)
    have "map_of doc ''_geoloc'' = Some (PDict [(''lat'', lat), (''lng'', lng)])"
      unfolding doc g_eq by (simp add: map_of_dict_set)
    with a lat lng have gg: "str_truthy (geo_field self) \<longrightarrow>
                 (\<exists>a v lat lng. py_getattr inst (the (geo_field self)) = Inr a
                    \<and> (if py_callable a then py_call a else Inr a) = Inr v
                    \<and> py_index v 0 = Inr lat \<and> py_index v 1 = Inr lng
                    \<and> map_of doc ''_geoloc'' = Some (PDict [(''lat'', lat), (''lng'', lng)]))"
      by blast
    from d ks o fs gg show ?thesis by blast
  qed
qed

text \<open>
  The example of the specification: the record with primary key 7, title \<^verbatim>\<open>x\<close> and
  location \<^verbatim>\<open>(1, 2)\<close>, the field \<^verbatim>\<open>title\<close> and the geo field \<^verbatim>\<open>loc\<close>.
\<close>

theorem build_object_document_witness:
  "build_object article_binding (article 7 ''x'') = Inr (article_doc 7 ''x'')
   \<and> ''objectID'' \<notin> set (index_fields article_binding)
   \<and> ''_geoloc'' \<notin> set (index_fields article_binding)
   \<and> distinct (map fst (article_doc 7 ''x''))
   \<and> set (map fst (article_doc 7 ''x'')) = {''objectID''} \<union> set (index_fields article_binding)
        \<union> (if str_truthy (geo_field article_binding) then {''_geoloc''} else {})
   \<and> map_of (article_doc 7 ''x'') ''objectID'' = Some (pk (article 7 ''x''))"
proof -
  have b: "build_object article_binding (article 7 ''x'') = Inr (article_doc 7 ''x'')"
    by (simp add: build_object_def build_geoloc_def read_attr_def article_doc_def example_defs)
  have o: "''objectID'' \<notin> set (index_fields article_binding)"
    by (simp add: article_binding_def)
  have g: "''_geoloc'' \<notin> set (index_fields article_binding)"
    by (simp add: article_binding_def)
  from build_object_document [OF b o] g b o show ?thesis by blast
qed

text \<open>
  Claim C3 as written fails on a model that has a field named \<^verbatim>\<open>objectID\<close>: the
  binding is constructed, and the document of the row with primary key 7 carries the
  field's value 99 under \<^verbatim>\<open>objectID\<close>.
\<close>

theorem build_object_objectID_overwritten:
  "init no_affixes Mirror (plain_index (FieldsSeq [''objectID''])) = Inr mirror_binding
   \<and> build_object mirror_binding mirror_row = Inr [(''objectID'', PInt 99)]
   \<and> pk mirror_row = PInt 7"
  by (simp add: example_defs build_object_def read_attr_def)

section \<open>What the constructor accepts\<close>

lemma py_getattr_error: "py_getattr inst a = Inl e \<Longrightarrow> e = AttributeError a"
  by (auto simp: py_getattr_def split: if_splits option.splits)

lemma check_fields_unknown:
  "f \<in> set fs \<Longrightarrow> f \<notin> set all_fields \<Longrightarrow> \<forall>a. py_getattr inst f = Inr a \<longrightarrow> \<not> py_callable a
     \<Longrightarrow> \<exists>e. check_fields inst all_fields fs = Inl e"
  by (induction fs) (auto split: sum.splits)

lemma check_fields_not_a_field:
  "check_fields inst all_fields fs = Inl (AlgoliaIndexError msg) \<Longrightarrow>
     \<exists>f a. msg = NotAField f \<and> f \<in> set fs \<and> f \<notin> set all_fields
        \<and> py_getattr inst f = Inr a \<and> \<not> py_callable a"
  by (induction fs) (auto split: sum.splits if_splits dest: py_getattr_error)

lemma init_fields:
  assumes "init conf m decl = Inr self"
  shows "index_fields self =
           (if normalize_fields (decl_fields decl) = []
            then remove1 ''id'' (all_field_names m)
            else normalize_fields (decl_fields decl))"
    and "normalize_fields (decl_fields decl) = [] \<longrightarrow> ''id'' \<in> set (all_field_names m)"
  using assms
  by (auto simp: init_def set_index_def Let_def default_fields_def
      split: sum.splits if_splits prod.splits)

lemma init_names:
  assumes "init conf m decl = Inr self"
  shows "index self = index_name self" and "tmp_index self = index_name self @ ''_tmp''"
    and "model self = m" and "geo_field self = decl_geo_field decl"
    and "settings self = decl_settings decl"
  using assms
  by (auto simp: init_def set_index_def Let_def default_fields_def
      split: sum.splits if_splits prod.splits)

lemma init_article: "init no_affixes Article ArticleIndex = Inr article_binding"
  by (simp add: example_defs)

text \<open>
  Claim C9, as the code has it. When the project defines both settings,
  \<^verbatim>\<open>__set_index\<close> resolves the primary name to the declared index name or, when
  none is declared, to the model's class name; a prefix that is not empty is put
  before it and a suffix that is not empty after it, each joined by an underscore;
  the primary handle is created with this name and the shadow handle with this name
  followed by \<^verbatim>\<open>_tmp\<close>. The name is empty only when there is no prefix, no suffix, no
  declared name, and the model's class name is itself empty.
\<close>

theorem set_index_names:
  assumes "ALGOLIA_INDEX_PREFIX conf = Defined prefix"
      and "ALGOLIA_INDEX_SUFFIX conf = Defined suffix"
  shows "\<exists>name. set_index conf m decl = Inr (name, name, name @ ''_tmp'')
           \<and> name = (if str_truthy prefix then the prefix @ ''_'' else [])
                    @ (if str_truthy (decl_index_name decl)
                       then the (decl_index_name decl) else model_name m)
                    @ (if str_truthy suffix then ''_'' @ the suffix else [])
           \<and> (name = []) = (\<not> str_truthy prefix \<and> \<not> str_truthy suffix
                              \<and> \<not> str_truthy (decl_index_name decl) \<and> model_name m = [])"
  using assms
  by (cases "decl_index_name decl") (auto simp: set_index_def Let_def)

theorem set_index_names_witness:
  "ALGOLIA_INDEX_PREFIX dev_v2_affixes = Defined (Some ''dev'')
   \<and> ALGOLIA_INDEX_SUFFIX dev_v2_affixes = Defined (Some ''v2'')
   \<and> set_index dev_v2_affixes Article ArticleIndex
     = Inr (''dev_Article_v2'', ''dev_Article_v2'', ''dev_Article_v2_tmp'')"
  using set_index_names [of dev_v2_affixes "Some ''dev''" "Some ''v2''" Article ArticleIndex]
  by (simp add: dev_v2_affixes_def Article_def ArticleIndex_def)

text \<open>
  Claim C9 as written fails twice. In a project that defines neither setting, reading
  \<^verbatim>\<open>settings.ALGOLIA_INDEX_PREFIX\<close> raises \<^verbatim>\<open>AttributeError\<close>, so no name is
  resolved at all; and for a model class whose name is empty, with nothing else
  configured, the resolved primary name is empty.
\<close>

theorem set_index_undefined_or_nameless:
  "set_index undefined_affixes Article ArticleIndex = Inl (AttributeError ''ALGOLIA_INDEX_PREFIX'')
   \<and> set_index no_affixes Nameless (plain_index (FieldsSeq [])) = Inr ([], [], ''_tmp'')"
  by (simp add: example_defs)

text \<open>
  Claim C8, as the code has it. When \<^verbatim>\<open>__set_index\<close> has returned, the declared
  fields pass their check and the geo field names an attribute of the model class,
  \<^verbatim>\<open>__init__\<close> raises \<^verbatim>\<open>AlgoliaIndexError\<close> for the geo field exactly when the
  attribute is neither a tuple nor callable: a tuple of any length and any callable
  pass the check.
\<close>

theorem geo_check_tuple_or_callable:
  assumes "set_index conf m decl = Inr names"
      and "check_fields (new_instance m) (all_field_names m)
             (normalize_fields (decl_fields decl)) = Inr ()"
      and "str_truthy (decl_geo_field decl)"
      and "class_getattr m (the (decl_geo_field decl)) = Inr attr"
  shows "(init conf m decl = Inl (AlgoliaIndexError GeoFieldNotTuple))
           = (\<not> is_tuple attr \<and> \<not> py_callable attr)
         \<and> (check_geo_field m (decl_geo_field decl) = Inr ())
           = (is_tuple attr \<or> py_callable attr)"
  using assms
  by (auto simp: init_def Let_def check_geo_field_def default_fields_def
        split: sum.splits prod.splits)

theorem geo_check_witness:
  "set_index no_affixes Article (ArticleIndex\<lparr>decl_geo_field := Some ''objects''\<rparr>)
     = Inr (''Article'', ''Article'', ''Article_tmp'')
   \<and> check_fields (new_instance Article) (all_field_names Article)
     (normalize_fields (decl_fields (ArticleIndex\<lparr>decl_geo_field := Some ''objects''\<rparr>))) = Inr ()
   \<and> class_getattr Article ''objects'' = Inr PNone
   \<and> init no_affixes Article (ArticleIndex\<lparr>decl_geo_field := Some ''objects''\<rparr>)
       = Inl (AlgoliaIndexError GeoFieldNotTuple)"
proof -
  let ?decl = "ArticleIndex\<lparr>decl_geo_field := Some ''objects''\<rparr>"
  have s: "set_index no_affixes Article ?decl = Inr (''Article'', ''Article'', ''Article_tmp'')"
    by (simp add: example_defs)
  have c: "check_fields (new_instance Article) (all_field_names Article)
             (normalize_fields (decl_fields ?decl)) = Inr ()"
    by (simp add: example_defs)
  have g: "str_truthy (decl_geo_field ?decl)" by simp
  have a: "class_getattr Article (the (decl_geo_field ?decl)) = Inr PNone"
    by (simp add: example_defs)
  from geo_check_tuple_or_callable [OF s c g a] s c a show ?thesis by simp
qed

text \<open>
  Claim C8 as written fails: a geo field that is a tuple of three elements is
  accepted, and the binding is constructed.
\<close>

theorem geo_triple_accepted:
  "class_getattr ArticleTriple ''loc'' = Inr (PTuple [PInt 1, PInt 2, PInt 3])
   \<and> init no_affixes ArticleTriple ArticleIndex = Inr (article_binding\<lparr>model := ArticleTriple\<rparr>)"
  by (simp add: example_defs)

text \<open>
  Claim C7, at a failing input. The declared field \<^verbatim>\<open>color\<close> is not a field of the
  model and is not an attribute of its instances at all: \<^verbatim>\<open>getattr\<close> raises
  \<^verbatim>\<open>AttributeError\<close> before the test that would raise \<^verbatim>\<open>AlgoliaIndexError\<close>.
\<close>

theorem init_unknown_field_AttributeError:
  "''color'' \<notin> set (all_field_names Article)
   \<and> py_getattr (new_instance Article) ''color'' = Inl (AttributeError ''color'')
   \<and> init no_affixes Article (plain_index (FieldsSeq [''color'']))
       = Inl (AttributeError ''color'')"
  by (simp add: example_defs)

text \<open>
  Claim C10, at a failing input. The model's primary key is its field \<^verbatim>\<open>code\<close>, so
  it has no field \<^verbatim>\<open>id\<close>; with no declared fields, \<^verbatim>\<open>self.fields.remove('id')\<close>
  raises \<^verbatim>\<open>ValueError\<close>.
\<close>

theorem init_default_fields_no_id_ValueError:
  "''id'' \<notin> set (all_field_names Coded)
   \<and> init no_affixes Coded (plain_index (FieldsSeq [])) = Inl ValueError"
  by (simp add: example_defs)

section \<open>Traces\<close>

lemma run_append: "run eng c (xs @ ys) = run eng (run eng c xs) ys"
  by (induction xs arbitrary: c) auto

lemma outcomes_append:
  "outcomes eng c (xs @ ys) = outcomes eng c xs @ outcomes eng (run eng c xs) ys"
  by (induction xs arbitrary: c) auto

lemma map_fst_outcomes: "map fst (outcomes eng c xs) = xs"
  by (induction xs arbitrary: c) auto

lemma outcomes_answer: "(x, out) \<in> set (outcomes eng c xs) \<Longrightarrow> \<exists>c'. out = snd (eng c' x)"
  by (induction xs arbitrary: c) auto

lemma extends_answer: "extends eng w new w' \<Longrightarrow> (x, out) \<in> set new \<Longrightarrow> \<exists>c'. out = snd (eng c' x)"
  unfolding extends_def using outcomes_answer by metis

lemma extends_refl: "extends eng w [] w"
  by (simp add: extends_def)

lemma extends_remote: "remote eng x w = (out, w') \<Longrightarrow> extends eng w [(x, out)] w'"
  by (auto simp: remote_def extends_def split: prod.splits)

lemma extends_trans:
  "extends eng w a w1 \<Longrightarrow> extends eng w1 b w2 \<Longrightarrow> extends eng w (a @ b) w2"
  unfolding extends_def
  by (metis append.assoc map_append outcomes_append run_append)

lemma extends_step:
  "remote eng x w = (out, w1) \<Longrightarrow> extends eng w1 b w2 \<Longrightarrow> extends eng w ((x, out) # b) w2"
  using extends_trans [OF extends_remote, of eng x w out w1 b w2] by simp

lemma build_object_cong:
  "index_fields s1 = index_fields s2 \<Longrightarrow> geo_field s1 = geo_field s2 \<Longrightarrow>
     build_object s1 inst = build_object s2 inst"
  by (auto simp: build_object_def split: sum.splits)

lemma index_all_loop_as_reindex:
  "index_all_loop eng self bs insts counts batch w =
     (case reindex_all_loop eng (self\<lparr>tmp_index := index self\<rparr>) bs insts r counts batch w of
        (Inl e, w') \<Rightarrow> (Inl e, w')
      | (Inr (r', c', b'), w') \<Rightarrow> (Inr (c', b'), w'))"
proof (induction insts arbitrary: r counts batch w)
  case Nil
  then show ?case by simp
next
  case (Cons inst rest)
  let ?self = "self\<lparr>tmp_index := index self\<rparr>"
  have b: "build_object ?self inst = build_object self inst"
    by (rule build_object_cong) simp_all
  show ?case
  proof (cases "build_object self inst")
    case (Inl e)
    then show ?thesis by (simp add: b)
  next
    case (Inr obj)
    show ?thesis
    proof (cases "int (length (batch @ [obj])) \<ge> bs")
      case False
      with Inr b Cons.IH [of "counts + 1" "batch @ [obj]" w r] show ?thesis by simp
    next
      case True
      obtain out w1 where rem: "remote eng (SaveObjects (index self) (batch @ [obj])) w = (out, w1)"
        by (cases "remote eng (SaveObjects (index self) (batch @ [obj])) w")
      show ?thesis
      proof (cases out)
        case (Inl e)
        with rem True Inr b show ?thesis by simp
      next
        case (Inr r1)
        with rem True \<open>build_object self inst = Inr obj\<close> b Cons.IH [of "counts + 1" "[]" w1 r1]
        show ?thesis by simp
      qed
    qed
  qed
qed

text \<open>The calls of any run of the loop, whether it ends or raises.\<close>

lemma reindex_all_loop_calls:
  "reindex_all_loop eng self bs insts r0 c0 b0 w = (res, w') \<Longrightarrow>
     \<exists>new. extends eng w new w'
        \<and> (\<forall>ev\<in>set new. \<exists>b. fst ev = SaveObjects (tmp_index self) b)
"
proof (induction insts arbitrary: r0 c0 b0 w)
  case Nil
  then show ?case by (auto intro: exI [of _ "[]"] simp: extends_refl)
next
  case (Cons inst rest)
  show ?case
  proof (cases "build_object self inst")
    case (Inl e)
    with Cons.prems have "w' = w" "res = Inl e" by auto
    then show ?thesis by (auto intro!: exI [of _ "[]"] simp: extends_refl)
  next
    case (Inr obj)
    show ?thesis
    proof (cases "int (length (b0 @ [obj])) \<ge> bs")
      case False
      with Inr Cons.prems
      have "reindex_all_loop eng self bs rest r0 (c0 + 1) (b0 @ [obj]) w = (res, w')"
        by simp
      from Cons.IH [OF this] show ?thesis .
    next
      case True
      obtain out w1 where rem: "remote eng (SaveObjects (tmp_index self) (b0 @ [obj])) w = (out, w1)"
        by (cases "remote eng (SaveObjects (tmp_index self) (b0 @ [obj])) w")
      show ?thesis
      proof (cases out)
        case (Inl e)
        with rem True Inr Cons.prems have "res = Inl e" "w' = w1" by auto
        with rem Inl show ?thesis
          by (intro exI [of _ "[(SaveObjects (tmp_index self) (b0 @ [obj]), out)]"])
             (auto simp: extends_remote)
      next
        case (Inr r)
        with rem True \<open>build_object self inst = Inr obj\<close> Cons.prems
        have "reindex_all_loop eng self bs rest r (c0 + 1) [] w1 = (res, w')" by simp
        from Cons.IH [OF this] obtain new where new: "extends eng w1 new w'"
          "\<forall>ev\<in>set new. \<exists>b. fst ev = SaveObjects (tmp_index self) b"
          by blast
        let ?new = "(SaveObjects (tmp_index self) (b0 @ [obj]), out) # new"
        have "extends eng w ?new w'" using rem new(1) by (rule extends_step)
        moreover have "\<forall>ev\<in>set ?new. \<exists>b. fst ev = SaveObjects (tmp_index self) b"
          using new(2) by simp
        ultimately show ?thesis by blast
      qed
    qed
  qed
qed

lemma reindex_all_loop_ok:
  "reindex_all_loop eng self bs insts r0 c0 b0 w = (Inr (r, c, batch), w') \<Longrightarrow>
     \<exists>new docs. extends eng w new w'
        \<and> (\<forall>ev\<in>set new. \<exists>b v. ev = (SaveObjects (tmp_index self) b, Inr v))
        \<and> map (build_object self) insts = map Inr docs
        \<and> concat (saved_batches new) @ batch = b0 @ docs
        \<and> c = c0 + int (length insts)
        \<and> (if new = [] then r = r0 else snd (last new) = Inr r)
        \<and> (1 \<le> bs \<and> int (length b0) < bs \<longrightarrow>
              (\<forall>b\<in>set (saved_batches new). int (length b) = bs) \<and> int (length batch) < bs)"
proof (induction insts arbitrary: r0 c0 b0 w)
  case Nil
  then show ?case by (auto intro!: exI [of _ "[]"] simp: extends_refl)
next
  case (Cons inst rest)
  from Cons.prems obtain obj where obj: "build_object self inst = Inr obj"
    by (cases "build_object self inst") auto
  show ?case
  proof (cases "int (length (b0 @ [obj])) \<ge> bs")
    case False
    with obj Cons.prems
    have "reindex_all_loop eng self bs rest r0 (c0 + 1) (b0 @ [obj]) w = (Inr (r, c, batch), w')"
      by simp
    from Cons.IH [OF this] obtain new docs where new: "extends eng w new w'"
      "\<forall>ev\<in>set new. \<exists>b v. ev = (SaveObjects (tmp_index self) b, Inr v)"
      "map (build_object self) rest = map Inr docs"
      "concat (saved_batches new) @ batch = (b0 @ [obj]) @ docs"
      "c = c0 + 1 + int (length rest)"
      "if new = [] then r = r0 else snd (last new) = Inr r"
      "1 \<le> bs \<and> int (length (b0 @ [obj])) < bs \<longrightarrow>
              (\<forall>b\<in>set (saved_batches new). int (length b) = bs) \<and> int (length batch) < bs"
      by blast
    have "map (build_object self) (inst # rest) = map Inr (obj # docs)"
      using obj new(3) by simp
    moreover have "concat (saved_batches new) @ batch = b0 @ (obj # docs)"
      using new(4) by simp
    moreover have "c = c0 + int (length (inst # rest))" using new(5) by simp
    moreover have "1 \<le> bs \<and> int (length b0) < bs \<longrightarrow>
              (\<forall>b\<in>set (saved_batches new). int (length b) = bs) \<and> int (length batch) < bs"
      using new(7) False by simp
    ultimately show ?thesis using new(1,2,6) by blast
  next
    case True
    obtain out w1 where rem: "remote eng (SaveObjects (tmp_index self) (b0 @ [obj])) w = (out, w1)"
      by (cases "remote eng (SaveObjects (tmp_index self) (b0 @ [obj])) w")
    with True obj Cons.prems obtain r1 where out: "out = Inr r1"
      by (cases out) auto
    with rem True obj Cons.prems
    have "reindex_all_loop eng self bs rest r1 (c0 + 1) [] w1 = (Inr (r, c, batch), w')"
      by simp
    from Cons.IH [OF this] obtain new docs where new: "extends eng w1 new w'"
      "\<forall>ev\<in>set new. \<exists>b v. ev = (SaveObjects (tmp_index self) b, Inr v)"
      "map (build_object self) rest = map Inr docs"
      "concat (saved_batches new) @ batch = [] @ docs"
      "c = c0 + 1 + int (length rest)"
      "if new = [] then r = r1 else snd (last new) = Inr r"
      "1 \<le> bs \<and> int (length ([]::dict list)) < bs \<longrightarrow>
              (\<forall>b\<in>set (saved_batches new). int (length b) = bs) \<and> int (length batch) < bs"
      by blast
    let ?new = "(SaveObjects (tmp_index self) (b0 @ [obj]), out) # new"
    have "extends eng w ?new w'" using rem new(1) by (rule extends_step)
    moreover have "\<forall>ev\<in>set ?new. \<exists>b v. ev = (SaveObjects (tmp_index self) b, Inr v)"
      using new(2) out by simp
    moreover have "map (build_object self) (inst # rest) = map Inr (obj # docs)"
      using obj new(3) by simp
    moreover have "concat (saved_batches ?new) @ batch = b0 @ (obj # docs)"
      using new(4) by simp
    moreover have "c = c0 + int (length (inst # rest))" using new(5) by simp
    moreover have "if ?new = [] then r = r0 else snd (last ?new) = Inr r"
      using new(6) out by simp
    moreover have "1 \<le> bs \<and> int (length b0) < bs \<longrightarrow>
              (\<forall>b\<in>set (saved_batches ?new). int (length b) = bs) \<and> int (length batch) < bs"
      using new(7) True by auto
    ultimately show ?thesis by blast
  qed
qed

lemma index_all_loop_ok:
  assumes "index_all_loop eng self bs insts c0 b0 w = (Inr (c, batch), w')"
  shows "\<exists>new docs. extends eng w new w'
        \<and> (\<forall>ev\<in>set new. \<exists>b v. ev = (SaveObjects (index self) b, Inr v))
        \<and> map (build_object self) insts = map Inr docs
        \<and> concat (saved_batches new) @ batch = b0 @ docs
        \<and> c = c0 + int (length insts)
        \<and> (1 \<le> bs \<and> int (length b0) < bs \<longrightarrow>
              (\<forall>b\<in>set (saved_batches new). int (length b) = bs) \<and> int (length batch) < bs)"
proof -
  let ?self = "self\<lparr>tmp_index := index self\<rparr>"
  have b: "build_object ?self = build_object self"
    by (rule ext, rule build_object_cong) simp_all
  from assms index_all_loop_as_reindex [of eng self bs insts c0 b0 w PNone]
  obtain r where "reindex_all_loop eng ?self bs insts PNone c0 b0 w = (Inr (r, c, batch), w')"
    by (auto split: prod.splits sum.splits)
  from reindex_all_loop_ok [OF this] show ?thesis
    unfolding b by simp blast
qed

lemma index_all_loop_calls:
  assumes "index_all_loop eng self bs insts c0 b0 w = (res, w')"
  shows "\<exists>new. extends eng w new w'
        \<and> (\<forall>ev\<in>set new. \<exists>b. fst ev = SaveObjects (index self) b)"
proof -
  let ?self = "self\<lparr>tmp_index := index self\<rparr>"
  from assms index_all_loop_as_reindex [of eng self bs insts c0 b0 w PNone]
  obtain res' where "reindex_all_loop eng ?self bs insts PNone c0 b0 w = (res', w')"
    by (auto split: prod.splits sum.splits)
  from reindex_all_loop_calls [OF this] show ?thesis by simp
qed

lemma saved_batches_append: "saved_batches (a @ b) = saved_batches a @ saved_batches b"
  by (induction a rule: saved_batches.induct) auto

lemma saved_batches_saves:
  "\<forall>ev\<in>set new. \<exists>b. fst ev = SaveObjects n b \<Longrightarrow> length (saved_batches new) = length new"
  by (induction new) auto

lemma length_concat_uniform:
  "\<forall>b\<in>set bss. length b = B \<Longrightarrow> length (concat bss) = length bss * B"
  by (induction bss) auto

lemma div_add_multiple:
  fixes m k B :: nat
  shows "m < B \<Longrightarrow> (m + k * B) div B = k"
  by simp

lemma ceil_div_nat:
  fixes k l B :: nat
  assumes "l < B"
  shows "(k * B + l + B - 1) div B = k + (if l = 0 then 0 else 1)"
proof (cases "l = 0")
  case True
  define m where "m = B - 1"
  have m: "m < B" "k * B + l + B - 1 = m + k * B"
    using assms True by (simp_all add: m_def)
  show ?thesis unfolding m(2) using div_add_multiple [OF m(1)] True by simp
next
  case False
  define m where "m = l - 1"
  have m: "m < B" "k * B + l + B - 1 = m + (k + 1) * B"
    using assms False by (simp_all add: m_def)
  show ?thesis unfolding m(2) using div_add_multiple [OF m(1), of "k + 1"] False by simp
qed

lemma flush_sizes:
  fixes B N :: nat
  assumes full: "\<forall>b\<in>set bss. length b = B"
      and part: "length batch < B"
      and total: "length (concat bss) + length batch = N"
  shows "length (bss @ (if batch = [] then [] else [batch])) = (N + B - 1) div B"
    and "sum_list (map length (bss @ (if batch = [] then [] else [batch]))) = N"
    and "\<forall>i. Suc i < length (bss @ (if batch = [] then [] else [batch]))
           \<longrightarrow> length ((bss @ (if batch = [] then [] else [batch])) ! i) = B"
    and "\<forall>b\<in>set (bss @ (if batch = [] then [] else [batch])). 1 \<le> length b \<and> length b \<le> B"
proof -
  have n: "N = length bss * B + length batch"
    using total length_concat_uniform [OF full] by simp
  show "length (bss @ (if batch = [] then [] else [batch])) = (N + B - 1) div B"
    using ceil_div_nat [OF part, of "length bss"] n by simp
  show "sum_list (map length (bss @ (if batch = [] then [] else [batch]))) = N"
    using total by (auto simp: length_concat)
  show "\<forall>i. Suc i < length (bss @ (if batch = [] then [] else [batch]))
           \<longrightarrow> length ((bss @ (if batch = [] then [] else [batch])) ! i) = B"
    using full by (auto simp: nth_append)
  show "\<forall>b\<in>set (bss @ (if batch = [] then [] else [batch])). 1 \<le> length b \<and> length b \<le> B"
    using full part by (auto simp: Suc_le_eq)
qed

lemma wait_and_move_ok:
  assumes "wait_and_move eng self result counts w = (Inr n, w')"
  shows "n = counts"
    and "\<not> truthy result \<Longrightarrow> w' = w"
    and "truthy result \<Longrightarrow>
           \<exists>task x y. py_getitem result ''taskID'' = Inr task
             \<and> extends eng w [(WaitTask (tmp_index self) task, Inr x),
                   (MoveIndex (index_name self @ ''_tmp'') (index_name self), Inr y)] w'"
  using assms
  by (auto simp: wait_and_move_def split: if_splits sum.splits prod.splits
      intro: extends_step extends_remote)

section \<open>The stages of a rebuild\<close>

lemma reindex_all_stages:
  assumes "reindex_all eng self bs w = (Inr n, w')"
  obtains r1 w1 r2 w2 result counts batch w3 result' w4 where
    "(if settings self \<noteq> [] then remote eng (SetSettings (tmp_index self) (settings self)) w
      else (Inr PNone, w)) = (Inr r1, w1)"
    "remote eng (ClearIndex (tmp_index self)) w1 = (Inr r2, w2)"
    "reindex_all_loop eng self bs (objects_all (model self)) PNone 0 [] w2
       = (Inr (result, counts, batch), w3)"
    "(if length batch > 0 then remote eng (SaveObjects (tmp_index self) batch) w3
      else (Inr result, w3)) = (Inr result', w4)"
    "wait_and_move eng self result' counts w4 = (Inr n, w')"
  using assms
  by (auto simp: reindex_all_def split: prod.splits sum.splits if_splits)

lemma index_all_stages:
  assumes "index_all eng self bs w = (Inr n, w')"
  obtains r1 w1 r2 w2 counts batch w3 r4 where
    "(if settings self \<noteq> [] then remote eng (SetSettings (index self) (settings self)) w
      else (Inr PNone, w)) = (Inr r1, w1)"
    "remote eng (ClearIndex (index self)) w1 = (Inr r2, w2)"
    "index_all_loop eng self bs (objects_all (model self)) 0 [] w2
       = (Inr (counts, batch), w3)"
    "(if length batch > 0 then remote eng (SaveObjects (index self) batch) w3
      else (Inr r4, w3)) = (Inr r4, w')"
    "n = counts"
  using assms
  by (auto simp: index_all_def set_settings_def clear_index_def
      split: prod.splits sum.splits if_splits)

lemma settings_stage:
  assumes "(if s \<noteq> [] then remote eng (SetSettings n s) w else (Inr PNone, w)) = (out, w1)"
  shows "\<exists>sett. extends eng w sett w1
           \<and> (if s = [] then sett = [] \<and> out = Inr PNone else sett = [(SetSettings n s, out)])"
  using assms by (auto split: if_splits simp: extends_refl extends_remote)

lemma final_flush_stage:
  assumes "(if length batch > 0 then remote eng (SaveObjects n batch) w3 else (Inr result, w3))
             = (out, w4)"
  shows "\<exists>fin. extends eng w3 fin w4
           \<and> (if batch = [] then fin = [] \<and> out = Inr result
               else fin = [(SaveObjects n batch, out)])"
  using assms by (auto split: if_splits simp: extends_refl extends_remote)

lemma reindex_all_ok:
  assumes "reindex_all eng self bs w = (Inr n, w')"
  shows "\<exists>sett r2 saves docs tail.
      extends eng w (sett @ (ClearIndex (tmp_index self), Inr r2) # saves @ tail) w'
    \<and> (if settings self = [] then sett = []
        else \<exists>r1. sett = [(SetSettings (tmp_index self) (settings self), Inr r1)])
    \<and> (\<forall>ev\<in>set saves. \<exists>b v. ev = (SaveObjects (tmp_index self) b, Inr v))
    \<and> map (build_object self) (objects_all (model self)) = map Inr docs
    \<and> concat (saved_batches saves) = docs
    \<and> n = int (length (objects_all (model self)))
    \<and> (1 \<le> bs \<longrightarrow>
         (\<exists>bss batch. saved_batches saves = bss @ (if batch = [] then [] else [batch])
            \<and> (\<forall>b\<in>set bss. int (length b) = bs) \<and> int (length batch) < bs))
    \<and> (if saves = [] then tail = []
        else \<exists>r. snd (last saves) = Inr r
               \<and> (if truthy r
                   then \<exists>task x y. py_getitem r ''taskID'' = Inr task
                          \<and> tail = [(WaitTask (tmp_index self) task, Inr x),
                               (MoveIndex (index_name self @ ''_tmp'') (index_name self), Inr y)]
                   else tail = []))"
proof -
  let ?tmp = "tmp_index self"
  from assms obtain r1 w1 r2 w2 result counts batch w3 result' w4 where
    s1: "(if settings self \<noteq> [] then remote eng (SetSettings ?tmp (settings self)) w
      else (Inr PNone, w)) = (Inr r1, w1)"
    and s2: "remote eng (ClearIndex ?tmp) w1 = (Inr r2, w2)"
    and s3: "reindex_all_loop eng self bs (objects_all (model self)) PNone 0 [] w2
       = (Inr (result, counts, batch), w3)"
    and s4: "(if length batch > 0 then remote eng (SaveObjects ?tmp batch) w3
      else (Inr result, w3)) = (Inr result', w4)"
    and s5: "wait_and_move eng self result' counts w4 = (Inr n, w')"
    by (rule reindex_all_stages)
  from settings_stage [OF s1] obtain sett where sett: "extends eng w sett w1"
    "if settings self = [] then sett = []
     else \<exists>r1. sett = [(SetSettings ?tmp (settings self), Inr r1)]"
    by (auto split: if_splits)
  from reindex_all_loop_ok [OF s3] obtain new docs where new0: "extends eng w2 new w3"
    "\<forall>ev\<in>set new. \<exists>b v. ev = (SaveObjects ?tmp b, Inr v)"
    "map (build_object self) (objects_all (model self)) = map Inr docs"
    "concat (saved_batches new) @ batch = [] @ docs"
    "counts = 0 + int (length (objects_all (model self)))"
    "if new = [] then result = PNone else snd (last new) = Inr result"
    "1 \<le> bs \<and> int (length ([]::dict list)) < bs \<longrightarrow>
       (\<forall>b\<in>set (saved_batches new). int (length b) = bs) \<and> int (length batch) < bs"
    by blast
  have new: "extends eng w2 new w3"
    "\<forall>ev\<in>set new. \<exists>b v. ev = (SaveObjects ?tmp b, Inr v)"
    "map (build_object self) (objects_all (model self)) = map Inr docs"
    "concat (saved_batches new) @ batch = docs"
    "counts = int (length (objects_all (model self)))"
    "if new = [] then result = PNone else snd (last new) = Inr result"
    "1 \<le> bs \<longrightarrow> (\<forall>b\<in>set (saved_batches new). int (length b) = bs) \<and> int (length batch) < bs"
    using new0 by simp_all
  from final_flush_stage [OF s4] obtain fin where fin: "extends eng w3 fin w4"
    "if batch = [] then fin = [] \<and> result' = result
     else fin = [(SaveObjects ?tmp batch, Inr result')]"
    by (auto split: if_splits)
  let ?saves = "new @ fin"
  from wait_and_move_ok [OF s5] have n: "n = counts"
    and wm_f: "\<not> truthy result' \<Longrightarrow> w' = w4"
    and wm_t: "truthy result' \<Longrightarrow> \<exists>task x y. py_getitem result' ''taskID'' = Inr task
             \<and> extends eng w4 [(WaitTask ?tmp task, Inr x),
                   (MoveIndex (index_name self @ ''_tmp'') (index_name self), Inr y)] w'"
    by blast+
  have last: "if ?saves = [] then result' = PNone else snd (last ?saves) = Inr result'"
    using new(6) fin(2) by (auto split: if_splits)
  obtain tail where tail: "extends eng w4 tail w'"
    "if truthy result'
     then \<exists>task x y. py_getitem result' ''taskID'' = Inr task
            \<and> tail = [(WaitTask ?tmp task, Inr x),
                 (MoveIndex (index_name self @ ''_tmp'') (index_name self), Inr y)]
     else tail = []"
  proof (cases "truthy result'")
    case True
    with wm_t that show ?thesis by auto
  next
    case False
    with wm_f that [of "[]"] show ?thesis by (auto simp: extends_refl)
  qed
  have e12: "extends eng w (sett @ [(ClearIndex ?tmp, Inr r2)]) w2"
    using sett(1) extends_remote [OF s2] by (rule extends_trans)
  have e34: "extends eng w2 (?saves @ tail) w'"
    using extends_trans [OF extends_trans [OF new(1) fin(1)] tail(1)] .
  have ext: "extends eng w (sett @ (ClearIndex ?tmp, Inr r2) # ?saves @ tail) w'"
    using extends_trans [OF e12 e34] by simp
  have saves: "\<forall>ev\<in>set ?saves. \<exists>b v. ev = (SaveObjects ?tmp b, Inr v)"
    using new(2) fin(2) by (auto split: if_splits)
  have sb: "saved_batches ?saves = saved_batches new @ (if batch = [] then [] else [batch])"
    using fin(2) by (auto simp: saved_batches_append split: if_splits)
  have docs: "concat (saved_batches ?saves) = docs"
    using new(4) sb by (auto split: if_splits)
  have sizes: "1 \<le> bs \<longrightarrow>
         (\<exists>bss batch. saved_batches ?saves = bss @ (if batch = [] then [] else [batch])
            \<and> (\<forall>b\<in>set bss. int (length b) = bs) \<and> int (length batch) < bs)"
    using new(7) sb by auto
  have tl: "if ?saves = [] then tail = []
        else \<exists>r. snd (last ?saves) = Inr r
               \<and> (if truthy r
                   then \<exists>task x y. py_getitem r ''taskID'' = Inr task
                          \<and> tail = [(WaitTask ?tmp task, Inr x),
                               (MoveIndex (index_name self @ ''_tmp'') (index_name self), Inr y)]
                   else tail = [])"
  proof (cases "?saves = []")
    case True
    with last have "result' = PNone" by simp
    with tail(2) True show ?thesis by simp
  next
    case False
    with last have "snd (last ?saves) = Inr result'" by simp
    with tail(2) False show ?thesis by (auto split: if_splits)
  qed
  from ext sett(2) saves new(3) docs n new(5) sizes tl show ?thesis by blast
qed

lemma index_all_ok:
  assumes "index_all eng self bs w = (Inr n, w')"
  shows "\<exists>sett r2 saves docs.
      extends eng w (sett @ (ClearIndex (index self), Inr r2) # saves) w'
    \<and> (if settings self = [] then sett = []
        else \<exists>r1. sett = [(SetSettings (index self) (settings self), Inr r1)])
    \<and> (\<forall>ev\<in>set saves. \<exists>b v. ev = (SaveObjects (index self) b, Inr v))
    \<and> map (build_object self) (objects_all (model self)) = map Inr docs
    \<and> concat (saved_batches saves) = docs
    \<and> n = int (length (objects_all (model self)))
    \<and> (1 \<le> bs \<longrightarrow>
         (\<exists>bss batch. saved_batches saves = bss @ (if batch = [] then [] else [batch])
            \<and> (\<forall>b\<in>set bss. int (length b) = bs) \<and> int (length batch) < bs))"
proof -
  let ?idx = "index self"
  from assms obtain r1 w1 r2 w2 counts batch w3 r4 where
    s1: "(if settings self \<noteq> [] then remote eng (SetSettings ?idx (settings self)) w
      else (Inr PNone, w)) = (Inr r1, w1)"
    and s2: "remote eng (ClearIndex ?idx) w1 = (Inr r2, w2)"
    and s3: "index_all_loop eng self bs (objects_all (model self)) 0 [] w2
       = (Inr (counts, batch), w3)"
    and s4: "(if length batch > 0 then remote eng (SaveObjects ?idx batch) w3
      else (Inr r4, w3)) = (Inr r4, w')"
    and n: "n = counts"
    by (rule index_all_stages)
  from settings_stage [OF s1] obtain sett where sett: "extends eng w sett w1"
    "if settings self = [] then sett = []
     else \<exists>r1. sett = [(SetSettings ?idx (settings self), Inr r1)]"
    by (auto split: if_splits)
  from index_all_loop_ok [OF s3] obtain new docs where new0: "extends eng w2 new w3"
    "\<forall>ev\<in>set new. \<exists>b v. ev = (SaveObjects ?idx b, Inr v)"
    "map (build_object self) (objects_all (model self)) = map Inr docs"
    "concat (saved_batches new) @ batch = [] @ docs"
    "counts = 0 + int (length (objects_all (model self)))"
    "1 \<le> bs \<and> int (length ([]::dict list)) < bs \<longrightarrow>
       (\<forall>b\<in>set (saved_batches new). int (length b) = bs) \<and> int (length batch) < bs"
    by blast
  have new: "concat (saved_batches new) @ batch = docs"
    "counts = int (length (objects_all (model self)))"
    "1 \<le> bs \<longrightarrow> (\<forall>b\<in>set (saved_batches new). int (length b) = bs) \<and> int (length batch) < bs"
    using new0 by simp_all
  from final_flush_stage [OF s4] obtain fin where fin: "extends eng w3 fin w'"
    "if batch = [] then fin = [] else fin = [(SaveObjects ?idx batch, Inr r4)]"
    by (auto split: if_splits)
  let ?saves = "new @ fin"
  have e12: "extends eng w (sett @ [(ClearIndex ?idx, Inr r2)]) w2"
    using sett(1) extends_remote [OF s2] by (rule extends_trans)
  have e34: "extends eng w2 ?saves w'"
    using extends_trans [OF new0(1) fin(1)] .
  have ext: "extends eng w (sett @ (ClearIndex ?idx, Inr r2) # ?saves) w'"
    using extends_trans [OF e12 e34] by simp
  have saves: "\<forall>ev\<in>set ?saves. \<exists>b v. ev = (SaveObjects ?idx b, Inr v)"
    using new0(2) fin(2) by (auto split: if_splits)
  have sb: "saved_batches ?saves = saved_batches new @ (if batch = [] then [] else [batch])"
    using fin(2) by (auto simp: saved_batches_append split: if_splits)
  have docs: "concat (saved_batches ?saves) = docs"
    using new(1) sb by (auto split: if_splits)
  have sizes: "1 \<le> bs \<longrightarrow>
         (\<exists>bss batch. saved_batches ?saves = bss @ (if batch = [] then [] else [batch])
            \<and> (\<forall>b\<in>set bss. int (length b) = bs) \<and> int (length batch) < bs)"
    using new(3) sb by auto
  from ext sett(2) saves new0(3) docs n new(2) sizes show ?thesis by blast
qed

lemma frame_run:
  "respects_frame eng view \<Longrightarrow> \<forall>x\<in>set calls. n \<notin> set (targets x) \<Longrightarrow>
     view (run eng c calls) n = view c n"
  by (induction calls arbitrary: c) (auto simp: respects_frame_def)

lemma frame_extends:
  assumes "respects_frame eng view" "extends eng w new w'"
      and "\<forall>ev\<in>set new. n \<notin> set (targets (fst ev))"
  shows "view (client w') n = view (client w) n"
  using assms frame_run [of eng view "map fst new" n "client w"]
  by (simp add: extends_def)

lemma wait_and_move_calls:
  assumes "wait_and_move eng self result counts w = (res, w')"
  shows "\<exists>pre mv. extends eng w (pre @ mv) w'
           \<and> (pre = [] \<or> (\<exists>task out. pre = [(WaitTask (tmp_index self) task, out)]))
           \<and> (mv = [] \<or> (\<exists>out. mv = [(MoveIndex (index_name self @ ''_tmp'') (index_name self), out)]
                              \<and> (\<forall>e. res = Inl e \<longrightarrow> out = Inl e)))"
proof (cases "truthy result")
  case False
  with assms have "w' = w" by (simp add: wait_and_move_def)
  then have "extends eng w ([] @ []) w'" by (simp add: extends_refl)
  then show ?thesis by blast
next
  case True
  show ?thesis
  proof (cases "py_getitem result ''taskID''")
    case (Inl e)
    with True assms have "w' = w" by (simp add: wait_and_move_def)
    then have "extends eng w ([] @ []) w'" by (simp add: extends_refl)
    then show ?thesis by blast
  next
    case (Inr task)
    obtain o1 w1 where r1: "remote eng (WaitTask (tmp_index self) task) w = (o1, w1)"
      by (cases "remote eng (WaitTask (tmp_index self) task) w")
    show ?thesis
    proof (cases o1)
      case (Inl e)
      with True Inr r1 assms have "w' = w1" by (simp add: wait_and_move_def)
      with extends_remote [OF r1]
      have "extends eng w ([(WaitTask (tmp_index self) task, o1)] @ []) w'" by simp
      then show ?thesis by blast
    next
      case (Inr x)
      obtain o2 w2 where r2:
        "remote eng (MoveIndex (index_name self @ ''_tmp'') (index_name self)) w1 = (o2, w2)"
        by (cases "remote eng (MoveIndex (index_name self @ ''_tmp'') (index_name self)) w1")
      with True \<open>py_getitem result ''taskID'' = Inr task\<close> r1 Inr assms
      have w': "w' = w2" and res: "\<forall>e. res = Inl e \<longrightarrow> o2 = Inl e"
        by (auto simp: wait_and_move_def split: sum.splits)
      have "extends eng w ([(WaitTask (tmp_index self) task, o1)]
              @ [(MoveIndex (index_name self @ ''_tmp'') (index_name self), o2)]) w'"
        unfolding w' using extends_remote [OF r1] extends_remote [OF r2] by (rule extends_trans)
      with res show ?thesis by blast
    qed
  qed
qed

lemma reindex_all_calls:
  assumes "reindex_all eng self bs w = (res, w')"
  shows "\<exists>pre mv. extends eng w (pre @ mv) w'
           \<and> (\<forall>ev\<in>set pre. targets (fst ev) = [tmp_index self] \<and> \<not> is_move (fst ev))
           \<and> (mv = [] \<or> (\<exists>out. mv = [(MoveIndex (index_name self @ ''_tmp'') (index_name self), out)]
                              \<and> (\<forall>e. res = Inl e \<longrightarrow> out = Inl e)))"
proof -
  let ?tmp = "tmp_index self"
  let ?P = "\<lambda>evs. \<forall>ev\<in>set evs. targets (fst ev) = [?tmp] \<and> \<not> is_move (fst ev)"
  have stop: ?thesis if "extends eng w pre w'" "?P pre" for pre
  proof -
    from that have "extends eng w (pre @ []) w'" by simp
    with that(2) show ?thesis by blast
  qed
  obtain o1 w1 where s1: "(if settings self \<noteq> []
      then remote eng (SetSettings ?tmp (settings self)) w else (Inr PNone, w)) = (o1, w1)"
    by (cases "if settings self \<noteq> []
      then remote eng (SetSettings ?tmp (settings self)) w else (Inr PNone, w)")
  from settings_stage [OF s1] obtain sett where sett: "extends eng w sett w1" "?P sett"
    by (auto split: if_splits)
  show ?thesis
  proof (cases o1)
    case (Inl e)
    with s1 assms have "w' = w1" by (simp add: reindex_all_def)
    with sett have "extends eng w sett w'" by simp
    then show ?thesis using sett(2) by (rule stop)
  next
    case r1: (Inr r1)
    obtain o2 w2 where s2: "remote eng (ClearIndex ?tmp) w1 = (o2, w2)"
      by (cases "remote eng (ClearIndex ?tmp) w1")
    have e2: "extends eng w (sett @ [(ClearIndex ?tmp, o2)]) w2"
      using sett(1) extends_remote [OF s2] by (rule extends_trans)
    have p2: "?P (sett @ [(ClearIndex ?tmp, o2)])" using sett(2) by simp
    show ?thesis
    proof (cases o2)
      case (Inl e)
      with s1 r1 s2 assms have "w' = w2" by (simp add: reindex_all_def)
      with e2 have "extends eng w (sett @ [(ClearIndex ?tmp, o2)]) w'" by simp
      then show ?thesis using p2 by (rule stop)
    next
      case r2: (Inr r2)
      obtain o3 w3 where s3:
        "reindex_all_loop eng self bs (objects_all (model self)) PNone 0 [] w2 = (o3, w3)"
        by (cases "reindex_all_loop eng self bs (objects_all (model self)) PNone 0 [] w2")
      from reindex_all_loop_calls [OF s3] obtain new where new: "extends eng w2 new w3"
        "\<forall>ev\<in>set new. \<exists>b. fst ev = SaveObjects ?tmp b"
        by blast
      have e3: "extends eng w (sett @ [(ClearIndex ?tmp, o2)] @ new) w3"
        using extends_trans [OF e2 new(1)] by simp
      have p3: "?P (sett @ [(ClearIndex ?tmp, o2)] @ new)"
        using sett(2) new(2) by auto
      show ?thesis
      proof (cases o3)
        case (Inl e)
        with s1 r1 s2 r2 s3 assms have "w' = w3" by (simp add: reindex_all_def)
        with e3 have "extends eng w (sett @ [(ClearIndex ?tmp, o2)] @ new) w'" by simp
        then show ?thesis using p3 by (rule stop)
      next
        case (Inr t)
        then obtain result counts batch where r3: "o3 = Inr (result, counts, batch)"
          by (cases t) auto
        obtain o4 w4 where s4: "(if length batch > 0
            then remote eng (SaveObjects ?tmp batch) w3 else (Inr result, w3)) = (o4, w4)"
          by (cases "if length batch > 0
            then remote eng (SaveObjects ?tmp batch) w3 else (Inr result, w3)")
        from final_flush_stage [OF s4] obtain fin where fin: "extends eng w3 fin w4" "?P fin"
          by (auto split: if_splits)
        have e4: "extends eng w (sett @ [(ClearIndex ?tmp, o2)] @ new @ fin) w4"
          using extends_trans [OF e3 fin(1)] by simp
        have p4: "?P (sett @ [(ClearIndex ?tmp, o2)] @ new @ fin)"
          using p3 fin(2) by auto
        show ?thesis
        proof (cases o4)
          case (Inl e)
          with s1 r1 s2 r2 s3 r3 s4 assms have "w' = w4"
            by (auto simp: reindex_all_def split: if_splits)
          with e4 have "extends eng w (sett @ [(ClearIndex ?tmp, o2)] @ new @ fin) w'" by simp
          then show ?thesis using p4 by (rule stop)
        next
          case (Inr result')
          with s1 r1 s2 r2 s3 r3 s4 assms
          have "wait_and_move eng self result' counts w4 = (res, w')"
            by (auto simp: reindex_all_def split: if_splits)
          from wait_and_move_calls [OF this] obtain pre mv where
            wm: "extends eng w4 (pre @ mv) w'"
              "pre = [] \<or> (\<exists>task out. pre = [(WaitTask ?tmp task, out)])"
              "mv = [] \<or> (\<exists>out. mv = [(MoveIndex (index_name self @ ''_tmp'') (index_name self), out)]
                              \<and> (\<forall>e. res = Inl e \<longrightarrow> out = Inl e))"
            by blast
          let ?pre = "sett @ [(ClearIndex ?tmp, o2)] @ new @ fin @ pre"
          have "extends eng w (?pre @ mv) w'"
            using extends_trans [OF e4 wm(1)] by simp
          moreover have "?P ?pre" using p4 wm(2) by auto
          ultimately show ?thesis using wm(3) by blast
        qed
      qed
    qed
  qed
qed

section \<open>The example engines\<close>

lemma init_coded: "init no_affixes Coded (plain_index (FieldsSeq [''title''])) = Inr coded_binding"
  by (simp add: example_defs)

lemmas run_defs = reindex_all_def index_all_def set_settings_def clear_index_def remote_def
  wait_and_move_def build_object_def build_geoloc_def read_attr_def py_getattr_def
  article_binding_def Article_def article_def empty_world_def coded_binding_def Coded_def

lemma store_engine_frame: "respects_frame store_engine (\<lambda>c. snd c)"
  unfolding respects_frame_def
proof (intro allI impI)
  fix c :: "nat \<times> (string \<Rightarrow> dict list)" and x n
  assume "n \<notin> set (targets x)"
  then show "snd (fst (store_engine c x)) n = snd c n"
    by (cases c; cases x) auto
qed

lemma flaky_engine_frame: "respects_frame flaky_engine (\<lambda>c. snd c)"
  unfolding respects_frame_def
proof (intro allI impI)
  fix c :: "nat \<times> (string \<Rightarrow> dict list)" and x n
  assume "n \<notin> set (targets x)"
  then show "snd (fst (flaky_engine c x)) n = snd c n"
    by (cases c; cases x) auto
qed

lemma run_pair: "fst p = a \<Longrightarrow> p = (a, snd p)"
  by auto

section \<open>Batches\<close>

lemma flush_sizes_int:
  fixes bs :: int and N :: nat
  assumes bs: "1 \<le> bs"
      and shape: "sb = bss @ (if batch = [] then [] else [batch])"
      and full: "\<forall>b\<in>set bss. int (length b) = bs"
      and part: "int (length batch) < bs"
      and total: "length (concat sb) = N"
  shows "int (length sb) = (int N + bs - 1) div bs"
    and "sum_list (map length sb) = N"
    and "\<forall>i. Suc i < length sb \<longrightarrow> int (length (sb ! i)) = bs"
    and "\<forall>b\<in>set sb. 1 \<le> length b \<and> int (length b) \<le> bs"
proof -
  define B where "B = nat bs"
  have B: "bs = int B" "0 < B" using bs by (simp_all add: B_def)
  have full': "\<forall>b\<in>set bss. length b = B" using full B by simp
  have part': "length batch < B" using part B by simp
  have total': "length (concat bss) + length batch = N" using total shape by (auto split: if_splits)
  have fs: "length sb = (N + B - 1) div B"
    "sum_list (map length sb) = N"
    "\<forall>i. Suc i < length sb \<longrightarrow> length (sb ! i) = B"
    "\<forall>b\<in>set sb. 1 \<le> length b \<and> length b \<le> B"
    unfolding shape using flush_sizes [OF full' part' total'] by blast+
  have e: "int N + bs - 1 = int (N + B - 1)" using B by simp
  have "(int N + bs - 1) div bs = int (N + B - 1) div bs" by (simp only: e)
  also have "\<dots> = int (N + B - 1) div int B" by (simp only: B(1))
  also have "\<dots> = int ((N + B - 1) div B)" by (rule zdiv_int [symmetric])
  finally show "int (length sb) = (int N + bs - 1) div bs" by (simp only: fs(1))
  show "sum_list (map length sb) = N" using fs(2) .
  show "\<forall>i. Suc i < length sb \<longrightarrow> int (length (sb ! i)) = bs" using fs(3) B by simp
  show "\<forall>b\<in>set sb. 1 \<le> length b \<and> int (length b) \<le> bs" using fs(4) B by simp
qed

lemma index_all_batches:
  assumes bs: "1 \<le> bs" and run: "index_all eng self bs w = (Inr n, w')"
  shows "\<exists>new docs bss batch. extends eng w new w'
          \<and> n = int (length (objects_all (model self)))
          \<and> map (build_object self) (objects_all (model self)) = map Inr docs
          \<and> concat (saved_batches new) = docs
          \<and> saved_batches new = bss @ (if batch = [] then [] else [batch])
          \<and> (\<forall>b\<in>set bss. int (length b) = bs) \<and> int (length batch) < bs"
proof -
  from index_all_ok [OF run] bs obtain sett r2 saves docs bss batch where
    ok: "extends eng w (sett @ (ClearIndex (index self), Inr r2) # saves) w'"
      "if settings self = [] then sett = []
       else \<exists>r1. sett = [(SetSettings (index self) (settings self), Inr r1)]"
      "map (build_object self) (objects_all (model self)) = map Inr docs"
      "concat (saved_batches saves) = docs"
      "n = int (length (objects_all (model self)))"
      "saved_batches saves = bss @ (if batch = [] then [] else [batch])"
      "\<forall>b\<in>set bss. int (length b) = bs" "int (length batch) < bs"
    by blast
  have "saved_batches sett = []" using ok(2) by (auto split: if_splits)
  then have sb: "saved_batches (sett @ (ClearIndex (index self), Inr r2) # saves)
               = saved_batches saves"
    by (simp add: saved_batches_append)
  show ?thesis
    using ok(1,3-8) unfolding sb [symmetric] by blast
qed

lemma reindex_all_batches:
  assumes bs: "1 \<le> bs" and run: "reindex_all eng self bs w = (Inr n, w')"
  shows "\<exists>new docs bss batch. extends eng w new w'
          \<and> n = int (length (objects_all (model self)))
          \<and> map (build_object self) (objects_all (model self)) = map Inr docs
          \<and> concat (saved_batches new) = docs
          \<and> saved_batches new = bss @ (if batch = [] then [] else [batch])
          \<and> (\<forall>b\<in>set bss. int (length b) = bs) \<and> int (length batch) < bs"
proof -
  from reindex_all_ok [OF run] bs obtain sett r2 saves docs tail bss batch where
    ok: "extends eng w (sett @ (ClearIndex (tmp_index self), Inr r2) # saves @ tail) w'"
      "if settings self = [] then sett = []
       else \<exists>r1. sett = [(SetSettings (tmp_index self) (settings self), Inr r1)]"
      "map (build_object self) (objects_all (model self)) = map Inr docs"
      "concat (saved_batches saves) = docs"
      "n = int (length (objects_all (model self)))"
      "saved_batches saves = bss @ (if batch = [] then [] else [batch])"
      "\<forall>b\<in>set bss. int (length b) = bs" "int (length batch) < bs"
      "if saves = [] then tail = []
       else \<exists>r. snd (last saves) = Inr r
             \<and> (if truthy r
                 then \<exists>task x y. py_getitem r ''taskID'' = Inr task
                        \<and> tail = [(WaitTask (tmp_index self) task, Inr x),
                             (MoveIndex (index_name self @ ''_tmp'') (index_name self), Inr y)]
                 else tail = [])"
    by blast
  have "saved_batches sett = []" using ok(2) by (auto split: if_splits)
  moreover have "saved_batches tail = []" using ok(9) by (auto split: if_splits)
  ultimately have sb: "saved_batches (sett @ (ClearIndex (tmp_index self), Inr r2) # saves @ tail)
               = saved_batches saves"
    by (simp add: saved_batches_append)
  show ?thesis
    using ok(1,3-8) unfolding sb [symmetric] by blast
qed

text \<open>
  Claim C2. For a batch size of at least one, a rebuild that returns, in place
  (\<^verbatim>\<open>index_all\<close>) or blue/green (\<^verbatim>\<open>reindex_all\<close>), returns the number \<open>N\<close> of
  records of the stream and makes exactly \<open>ceil(N / batch_size)\<close> calls of
  \<^verbatim>\<open>save_objects\<close>, none when the stream is empty. The batches, one after the other,
  are the documents of the records in the order of the stream, so their sizes add up
  to \<open>N\<close>; every batch but the last has exactly \<open>batch_size\<close> documents, and no batch is
  empty or larger.
\<close>

theorem rebuild_flush_count:
  assumes bs: "1 \<le> bs"
      and which: "rebuild = index_all \<or> rebuild = reindex_all"
      and run: "rebuild eng self bs w = (Inr n, w')"
  shows "\<exists>new. trace w' = trace w @ new
          \<and> n = int (length (objects_all (model self)))
          \<and> map (build_object self) (objects_all (model self))
              = map Inr (concat (saved_batches new))
          \<and> int (length (saved_batches new))
              = (int (length (objects_all (model self))) + bs - 1) div bs
          \<and> (objects_all (model self) = [] \<longrightarrow> saved_batches new = [])
          \<and> sum_list (map length (saved_batches new)) = length (objects_all (model self))
          \<and> (\<forall>i. Suc i < length (saved_batches new)
                \<longrightarrow> int (length (saved_batches new ! i)) = bs)
          \<and> (\<forall>b\<in>set (saved_batches new). 1 \<le> length b \<and> int (length b) \<le> bs)"
proof -
  let ?N = "length (objects_all (model self))"
  from which run have "index_all eng self bs w = (Inr n, w') \<or> reindex_all eng self bs w = (Inr n, w')"
    by auto
  with index_all_batches [OF bs] reindex_all_batches [OF bs]
  obtain new docs bss batch where new: "extends eng w new w'"
      "n = int ?N"
      "map (build_object self) (objects_all (model self)) = map Inr docs"
      "concat (saved_batches new) = docs"
      "saved_batches new = bss @ (if batch = [] then [] else [batch])"
      "\<forall>b\<in>set bss. int (length b) = bs" "int (length batch) < bs"
    by blast
  have "length (map (build_object self) (objects_all (model self)))
          = length (map Inr (concat (saved_batches new)) :: (error + dict) list)"
    using new(3,4) by simp
  then have len: "length (concat (saved_batches new)) = ?N" by simp
  note fs = flush_sizes_int [OF bs new(5) new(6) new(7) len]
  have empty: "objects_all (model self) = [] \<longrightarrow> saved_batches new = []"
  proof
    assume "objects_all (model self) = []"
    then have "int (length (saved_batches new)) = (bs - 1) div bs" using fs(1) by simp
    also have "\<dots> = 0" using bs by simp
    finally show "saved_batches new = []" by simp
  qed
  have t: "trace w' = trace w @ new" using new(1) by (simp add: extends_def)
  have d: "map (build_object self) (objects_all (model self))
              = map Inr (concat (saved_batches new))" using new(3,4) by simp
  from t new(2) d fs(1) empty fs(2) fs(3) fs(4) show ?thesis by (intro exI [of _ new] conjI)
qed

theorem rebuild_flush_count_witness:
  "(1::int) \<le> 2
   \<and> fst (reindex_all store_engine article_binding 2 empty_world) = Inr 3
   \<and> fst (index_all store_engine article_binding 2 empty_world) = Inr 3
   \<and> (\<exists>new. trace (snd (reindex_all store_engine article_binding 2 empty_world))
                = trace empty_world @ new
          \<and> map length (saved_batches new) = [2, 1])
   \<and> (\<exists>new. trace (snd (index_all store_engine article_binding 2 empty_world))
                = trace empty_world @ new
          \<and> int (length (saved_batches new))
              = (int (length (objects_all (model article_binding))) + 2 - 1) div 2
          \<and> sum_list (map length (saved_batches new))
              = length (objects_all (model article_binding)))"
proof -
  have b: "(1::int) \<le> 2" by simp
  have f: "fst (reindex_all store_engine article_binding 2 empty_world) = Inr 3"
    by (simp add: run_defs)
  have g: "fst (index_all store_engine article_binding 2 empty_world) = Inr 3"
    by (simp add: run_defs)
  have n: "length (objects_all (model article_binding)) = 3"
    by (simp add: article_binding_def Article_def)
  from rebuild_flush_count [OF b disjI2 [OF refl] run_pair [OF f]]
  obtain new where new:
    "trace (snd (reindex_all store_engine article_binding 2 empty_world)) = trace empty_world @ new"
    "int (length (saved_batches new)) = (int (length (objects_all (model article_binding))) + 2 - 1) div 2"
    "sum_list (map length (saved_batches new)) = length (objects_all (model article_binding))"
    "\<forall>i. Suc i < length (saved_batches new) \<longrightarrow> int (length (saved_batches new ! i)) = 2"
    by blast
  from new(2) n have l: "length (saved_batches new) = 2" by simp
  then obtain b1 b2 where sb: "saved_batches new = [b1, b2]"
    by (cases "saved_batches new"; cases "tl (saved_batches new)") auto
  with new(3,4) n have "length b1 = 2" "length b2 = 1" by auto
  with sb new(1) have 1: "\<exists>new. trace (snd (reindex_all store_engine article_binding 2 empty_world))
                = trace empty_world @ new \<and> map length (saved_batches new) = [2, 1]"
    by auto
  from rebuild_flush_count [OF b disjI1 [OF refl] run_pair [OF g]]
  have 2: "\<exists>new. trace (snd (index_all store_engine article_binding 2 empty_world))
                = trace empty_world @ new
          \<and> int (length (saved_batches new))
              = (int (length (objects_all (model article_binding))) + 2 - 1) div 2
          \<and> sum_list (map length (saved_batches new))
              = length (objects_all (model article_binding))"
    by blast
  from b f g 1 2 show ?thesis by blast
qed

section \<open>The blue/green rebuild\<close>

lemma tmp_name_differs: "n @ ''_tmp'' \<noteq> n"
  by simp

text \<open>
  Claim C1, as the code has it. Take a binding made by the constructor and a stream
  of at least one record, and let \<^verbatim>\<open>reindex_all\<close> return. Its calls are then calls
  on the shadow index, none of them a \<^verbatim>\<open>wait_task\<close> or a \<^verbatim>\<open>move_index\<close>, up to
  and including a last \<^verbatim>\<open>save_objects\<close>. When the answer of that last call is a
  true value, two more calls follow and nothing else: \<^verbatim>\<open>wait_task\<close> on the shadow
  index for the \<^verbatim>\<open>taskID\<close> of the answer, which returned, and then
  \<^verbatim>\<open>move_index\<close> from the shadow name to the primary name, the only move of the
  run. When the answer is not a true value, no call follows: there is neither a
  \<^verbatim>\<open>wait_task\<close> nor a \<^verbatim>\<open>move_index\<close>.
\<close>

theorem reindex_all_moves_once:
  assumes init: "init conf m decl = Inr self"
      and recs: "objects_all m \<noteq> []"
      and run: "reindex_all eng self bs w = (Inr n, w')"
  shows "\<exists>new pre b r.
           trace w' = trace w @ new
         \<and> index self = index_name self
         \<and> tmp_index self = index_name self @ ''_tmp''
         \<and> (\<forall>ev\<in>set pre. targets (fst ev) = [tmp_index self]
                \<and> \<not> is_move (fst ev) \<and> \<not> is_wait (fst ev))
         \<and> (if truthy r
             then \<exists>task x y.
                    new = pre @ [(SaveObjects (tmp_index self) b, Inr r),
                                 (WaitTask (tmp_index self) task, Inr x),
                                 (MoveIndex (tmp_index self) (index self), Inr y)]
                  \<and> py_getitem r ''taskID'' = Inr task
                  \<and> length (filter (\<lambda>ev. is_move (fst ev)) new) = 1
             else new = pre @ [(SaveObjects (tmp_index self) b, Inr r)]
                  \<and> filter (\<lambda>ev. is_move (fst ev)) new = []
                  \<and> filter (\<lambda>ev. is_wait (fst ev)) new = [])"
proof -
  let ?tmp = "tmp_index self"
  have names: "index self = index_name self" "?tmp = index_name self @ ''_tmp''" "model self = m"
    using init_names [OF init] by simp_all
  from reindex_all_ok [OF run] obtain sett r2 saves docs tail where
    ok: "extends eng w (sett @ (ClearIndex ?tmp, Inr r2) # saves @ tail) w'"
      "if settings self = [] then sett = []
       else \<exists>r1. sett = [(SetSettings ?tmp (settings self), Inr r1)]"
      "\<forall>ev\<in>set saves. \<exists>b v. ev = (SaveObjects ?tmp b, Inr v)"
      "map (build_object self) (objects_all (model self)) = map Inr docs"
      "concat (saved_batches saves) = docs"
      "if saves = [] then tail = []
       else \<exists>r. snd (last saves) = Inr r
             \<and> (if truthy r
                 then \<exists>task x y. py_getitem r ''taskID'' = Inr task
                        \<and> tail = [(WaitTask ?tmp task, Inr x),
                             (MoveIndex (index_name self @ ''_tmp'') (index_name self), Inr y)]
                 else tail = [])"
    by blast
  have "length (map (build_object self) (objects_all (model self)))
          = length (map Inr docs :: (error + dict) list)"
    using ok(4) by simp
  with recs names(3) have "docs \<noteq> []" by auto
  with ok(5) have ne: "saves \<noteq> []" by auto
  then have "last saves \<in> set saves" by simp
  with ok(3) obtain b r where l: "last saves = (SaveObjects ?tmp b, Inr r)" by blast
  define pre where "pre = sett @ (ClearIndex ?tmp, Inr r2) # butlast saves"
  have sv: "saves = butlast saves @ [(SaveObjects ?tmp b, Inr r)]"
    using ne l by (metis append_butlast_last_id)
  have all: "sett @ (ClearIndex ?tmp, Inr r2) # saves @ tail
               = pre @ (SaveObjects ?tmp b, Inr r) # tail"
    unfolding pre_def by (subst sv) simp
  have tr: "trace w' = trace w @ pre @ (SaveObjects ?tmp b, Inr r) # tail"
    using ok(1) all by (simp add: extends_def)
  have p: "\<forall>ev\<in>set pre. targets (fst ev) = [?tmp] \<and> \<not> is_move (fst ev) \<and> \<not> is_wait (fst ev)"
  proof
    fix ev assume "ev \<in> set pre"
    then consider "ev \<in> set sett" | "ev = (ClearIndex ?tmp, Inr r2)" | "ev \<in> set (butlast saves)"
      by (auto simp: pre_def)
    then show "targets (fst ev) = [?tmp] \<and> \<not> is_move (fst ev) \<and> \<not> is_wait (fst ev)"
    proof cases
      case 1
      with ok(2) show ?thesis by (auto split: if_splits)
    next
      case 2
      then show ?thesis by simp
    next
      case 3
      then have "ev \<in> set saves" by (rule in_set_butlastD)
      with ok(3) show ?thesis by auto
    qed
  qed
  then have nomove: "filter (\<lambda>ev. is_move (fst ev)) pre = []"
    and nowait: "filter (\<lambda>ev. is_wait (fst ev)) pre = []"
    by (auto simp: filter_empty_conv)
  let ?new = "pre @ (SaveObjects ?tmp b, Inr r) # tail"
  have last: "if truthy r
             then \<exists>task x y.
                    ?new = pre @ [(SaveObjects ?tmp b, Inr r),
                                 (WaitTask ?tmp task, Inr x),
                                 (MoveIndex ?tmp (index self), Inr y)]
                  \<and> py_getitem r ''taskID'' = Inr task
                  \<and> length (filter (\<lambda>ev. is_move (fst ev)) ?new) = 1
             else ?new = pre @ [(SaveObjects ?tmp b, Inr r)]
                  \<and> filter (\<lambda>ev. is_move (fst ev)) ?new = []
                  \<and> filter (\<lambda>ev. is_wait (fst ev)) ?new = []"
  proof (cases "truthy r")
    case True
    with ok(6) ne l obtain task x y where t: "py_getitem r ''taskID'' = Inr task"
      "tail = [(WaitTask ?tmp task, Inr x),
               (MoveIndex (index_name self @ ''_tmp'') (index_name self), Inr y)]"
      by auto
    have "tail = [(WaitTask ?tmp task, Inr x), (MoveIndex ?tmp (index self), Inr y)]"
      using t(2) names(1,2) by simp
    with True t(1) nomove show ?thesis by auto
  next
    case False
    with ok(6) ne l have "tail = []" by auto
    with False nomove nowait show ?thesis by simp
  qed
  from tr names(1,2) p last show ?thesis by blast
qed

theorem reindex_all_moves_once_witness:
  "init no_affixes Article ArticleIndex = Inr article_binding
   \<and> objects_all Article \<noteq> []
   \<and> fst (reindex_all store_engine article_binding 2 empty_world) = Inr 3
   \<and> map fst (trace (snd (reindex_all store_engine article_binding 2 empty_world)))
       = [SetSettings ''Article_tmp'' (settings article_binding),
          ClearIndex ''Article_tmp'',
          SaveObjects ''Article_tmp'' [article_doc 7 ''x'', article_doc 8 ''y''],
          SaveObjects ''Article_tmp'' [article_doc 9 ''z''],
          WaitTask ''Article_tmp'' (PInt 1),
          MoveIndex ''Article_tmp'' ''Article'']
   \<and> (\<exists>new pre b r.
           trace (snd (reindex_all store_engine article_binding 2 empty_world))
             = trace empty_world @ new
         \<and> index article_binding = index_name article_binding
         \<and> tmp_index article_binding = index_name article_binding @ ''_tmp''
         \<and> (\<forall>ev\<in>set pre. targets (fst ev) = [tmp_index article_binding]
                \<and> \<not> is_move (fst ev) \<and> \<not> is_wait (fst ev))
         \<and> (if truthy r
             then \<exists>task x y.
                    new = pre @ [(SaveObjects (tmp_index article_binding) b, Inr r),
                                 (WaitTask (tmp_index article_binding) task, Inr x),
                                 (MoveIndex (tmp_index article_binding) (index article_binding), Inr y)]
                  \<and> py_getitem r ''taskID'' = Inr task
                  \<and> length (filter (\<lambda>ev. is_move (fst ev)) new) = 1
             else new = pre @ [(SaveObjects (tmp_index article_binding) b, Inr r)]
                  \<and> filter (\<lambda>ev. is_move (fst ev)) new = []
                  \<and> filter (\<lambda>ev. is_wait (fst ev)) new = []))"
proof -
  have i: "init no_affixes Article ArticleIndex = Inr article_binding"
    by (rule init_article)
  have r: "objects_all Article \<noteq> []" by (simp add: Article_def)
  have f: "fst (reindex_all store_engine article_binding 2 empty_world) = Inr 3"
    by (simp add: run_defs)
  have t: "map fst (trace (snd (reindex_all store_engine article_binding 2 empty_world)))
       = [SetSettings ''Article_tmp'' (settings article_binding),
          ClearIndex ''Article_tmp'',
          SaveObjects ''Article_tmp'' [article_doc 7 ''x'', article_doc 8 ''y''],
          SaveObjects ''Article_tmp'' [article_doc 9 ''z''],
          WaitTask ''Article_tmp'' (PInt 1),
          MoveIndex ''Article_tmp'' ''Article'']"
    by (simp add: run_defs article_doc_def)
  from reindex_all_moves_once [OF i r run_pair [OF f]] i r f t show ?thesis by simp
qed

text \<open>
  Claim C1 as written fails when \<^verbatim>\<open>save_objects\<close> answers with a value that is not
  true, here an empty dictionary: the rebuild of the three articles returns 3 after
  two uploads to the shadow index, with no \<^verbatim>\<open>wait_task\<close> and no \<^verbatim>\<open>move_index\<close>.
\<close>

theorem reindex_all_false_answer_no_move:
  "init no_affixes Article ArticleIndex = Inr article_binding
   \<and> length (objects_all Article) = 3
   \<and> fst (reindex_all mute_engine article_binding 2 empty_world) = Inr 3
   \<and> trace (snd (reindex_all mute_engine article_binding 2 empty_world))
       = [(SetSettings ''Article_tmp'' (settings article_binding), Inr PNone),
          (ClearIndex ''Article_tmp'', Inr PNone),
          (SaveObjects ''Article_tmp'' [article_doc 7 ''x'', article_doc 8 ''y''], Inr (PDict [])),
          (SaveObjects ''Article_tmp'' [article_doc 9 ''z''], Inr (PDict []))]"
proof (intro conjI)
  show "init no_affixes Article ArticleIndex = Inr article_binding"
    by (rule init_article)
  show "length (objects_all Article) = 3"
    by (simp add: Article_def)
  show "fst (reindex_all mute_engine article_binding 2 empty_world) = Inr 3"
    by (simp add: run_defs)
  show "trace (snd (reindex_all mute_engine article_binding 2 empty_world))
       = [(SetSettings ''Article_tmp'' (settings article_binding), Inr PNone),
          (ClearIndex ''Article_tmp'', Inr PNone),
          (SaveObjects ''Article_tmp'' [article_doc 7 ''x'', article_doc 8 ''y''], Inr (PDict [])),
          (SaveObjects ''Article_tmp'' [article_doc 9 ''z''], Inr (PDict []))]"
    by (simp add: run_defs article_doc_def)
qed


text \<open>
  Claim C6. In every run of \<^verbatim>\<open>reindex_all\<close> on a binding made by the constructor,
  whether it returns or raises, each call is made on the shadow index, whose name
  differs from the primary name, except possibly one last call, the
  \<^verbatim>\<open>move_index\<close> from the shadow name to the primary name. When the run raises, the
  move was either not made or is the call that raised. On an engine that keeps its
  indices apart, what it holds under the primary name is unchanged up to the move,
  and unchanged at the end of every run that made no move.
\<close>

theorem reindex_all_primary_untouched:
  assumes init: "init conf m decl = Inr self"
      and frame: "respects_frame eng view"
      and run: "reindex_all eng self bs w = (res, w')"
  shows "\<exists>pre mv.
           trace w' = trace w @ pre @ mv
         \<and> (\<forall>ev\<in>set pre. targets (fst ev) = [tmp_index self] \<and> \<not> is_move (fst ev))
         \<and> tmp_index self \<noteq> index_name self
         \<and> index self = index_name self
         \<and> (mv = [] \<or> (\<exists>out. mv = [(MoveIndex (tmp_index self) (index_name self), out)]))
         \<and> (\<forall>e. res = Inl e \<longrightarrow>
                mv = [] \<or> mv = [(MoveIndex (tmp_index self) (index_name self), Inl e)])
         \<and> view (run eng (client w) (map fst pre)) (index_name self)
              = view (client w) (index_name self)
         \<and> (mv = [] \<longrightarrow> view (client w') (index_name self) = view (client w) (index_name self))"
proof -
  let ?tmp = "tmp_index self"
  have names: "index self = index_name self" "index_name self @ ''_tmp'' = ?tmp"
    using init_names [OF init] by simp_all
  then have diff: "?tmp \<noteq> index_name self" by (metis tmp_name_differs)
  from reindex_all_calls [OF run] obtain pre mv where
    c: "extends eng w (pre @ mv) w'"
       "\<forall>ev\<in>set pre. targets (fst ev) = [?tmp] \<and> \<not> is_move (fst ev)"
       "mv = [] \<or> (\<exists>out. mv = [(MoveIndex ?tmp (index_name self), out)]
                              \<and> (\<forall>e. res = Inl e \<longrightarrow> out = Inl e))"
    unfolding names(2) by blast
  have tr: "trace w' = trace w @ pre @ mv" using c(1) by (simp add: extends_def)
  have nt: "\<forall>x\<in>set (map fst pre). index_name self \<notin> set (targets x)"
    using c(2) diff by auto
  have v1: "view (run eng (client w) (map fst pre)) (index_name self)
              = view (client w) (index_name self)"
    using frame nt by (rule frame_run)
  have v2: "mv = [] \<longrightarrow> view (client w') (index_name self) = view (client w) (index_name self)"
    using v1 c(1) by (auto simp: extends_def)
  have m1: "mv = [] \<or> (\<exists>out. mv = [(MoveIndex ?tmp (index_name self), out)])"
    using c(3) by blast
  have m2: "\<forall>e. res = Inl e \<longrightarrow>
                mv = [] \<or> mv = [(MoveIndex ?tmp (index_name self), Inl e)]"
    using c(3) by blast
  from tr c(2) diff names(1) m1 m2 v1 v2 show ?thesis by blast
qed

theorem reindex_all_primary_untouched_witness:
  "init no_affixes Article ArticleIndex = Inr article_binding
   \<and> respects_frame flaky_engine (\<lambda>c. snd c)
   \<and> fst (reindex_all flaky_engine article_binding 2 empty_world) = Inl (RemoteError ''timeout'')
   \<and> snd (client (snd (reindex_all flaky_engine article_binding 2 empty_world))) ''Article''
       = snd (client empty_world) ''Article''"
proof -
  have i: "init no_affixes Article ArticleIndex = Inr article_binding"
    by (rule init_article)
  have f: "fst (reindex_all flaky_engine article_binding 2 empty_world) = Inl (RemoteError ''timeout'')"
    by (simp add: run_defs)
  let ?w' = "snd (reindex_all flaky_engine article_binding 2 empty_world)"
  from reindex_all_primary_untouched [OF i flaky_engine_frame run_pair [OF f]]
  obtain pre mv where c: "trace ?w' = trace empty_world @ pre @ mv"
    "\<forall>e. Inl (RemoteError ''timeout'') = (Inl e :: error + int) \<longrightarrow>
        mv = [] \<or> mv = [(MoveIndex (tmp_index article_binding) (index_name article_binding), Inl e)]"
    "mv = [] \<longrightarrow> snd (client ?w') (index_name article_binding)
        = snd (client empty_world) (index_name article_binding)"
    by blast
  have t: "snd (last (trace ?w')) = Inl (RemoteError ''timeout'')"
      "fst (last (trace ?w')) = WaitTask ''Article_tmp'' (PInt 1)"
    by (simp_all add: run_defs)
  have "mv = []"
  proof (rule ccontr)
    assume "mv \<noteq> []"
    with c(2) have "mv = [(MoveIndex (tmp_index article_binding) (index_name article_binding),
                           Inl (RemoteError ''timeout''))]" by simp
    with c(1) have "fst (last (trace ?w'))
        = MoveIndex (tmp_index article_binding) (index_name article_binding)" by simp
    with t(2) show False by simp
  qed
  with c(3) have "snd (client ?w') ''Article'' = snd (client empty_world) ''Article''"
    by (simp add: article_binding_def)
  with i flaky_engine_frame f show ?thesis by simp
qed

text \<open>
  Claim C4. On an empty stream \<^verbatim>\<open>reindex_all\<close> makes no \<^verbatim>\<open>save_objects\<close>,
  \<^verbatim>\<open>wait_task\<close> or \<^verbatim>\<open>move_index\<close> call: its only calls are the
  \<^verbatim>\<open>set_settings\<close> and \<^verbatim>\<open>clear_index\<close> on the shadow index. It returns the
  count 0, unless one of these two calls raises, and what an engine that keeps its
  indices apart holds under the primary name is unchanged.
\<close>

theorem reindex_all_empty_stream:
  assumes init: "init conf m decl = Inr self"
      and empty: "objects_all m = []"
      and frame: "respects_frame eng view"
      and run: "reindex_all eng self bs w = (res, w')"
  shows "\<exists>new.
           trace w' = trace w @ new
         \<and> (\<forall>ev\<in>set new. targets (fst ev) = [tmp_index self]
                \<and> \<not> is_wait (fst ev) \<and> \<not> is_move (fst ev) \<and> \<not> is_save (fst ev))
         \<and> tmp_index self \<noteq> index_name self
         \<and> index self = index_name self
         \<and> (res = Inr 0 \<or> (\<exists>e. res = Inl e \<and> new \<noteq> [] \<and> snd (last new) = Inl e))
         \<and> ((\<forall>ev\<in>set new. \<exists>v. snd ev = Inr v) \<longrightarrow> res = Inr 0)
         \<and> view (client w') (index_name self) = view (client w) (index_name self)"
proof -
  let ?tmp = "tmp_index self"
  let ?P = "\<lambda>evs. \<forall>ev\<in>set evs. targets (fst ev) = [?tmp]
                \<and> \<not> is_wait (fst ev) \<and> \<not> is_move (fst ev) \<and> \<not> is_save (fst ev)"
  have names: "index self = index_name self" "index_name self @ ''_tmp'' = ?tmp" "model self = m"
    using init_names [OF init] by simp_all
  then have diff: "?tmp \<noteq> index_name self" by (metis tmp_name_differs)
  have loop: "reindex_all_loop eng self bs (objects_all (model self)) PNone 0 [] w2
                = (Inr (PNone, 0, []), w2)" for w2
    using names(3) empty by simp
  have "\<exists>new. extends eng w new w' \<and> ?P new
          \<and> (res = Inr 0 \<or> (\<exists>e. res = Inl e \<and> new \<noteq> [] \<and> snd (last new) = Inl e))
          \<and> ((\<forall>ev\<in>set new. \<exists>v. snd ev = Inr v) \<longrightarrow> res = Inr 0)"
  proof -
    obtain o1 w1 where s1: "(if settings self \<noteq> []
        then remote eng (SetSettings ?tmp (settings self)) w else (Inr PNone, w)) = (o1, w1)"
      by (cases "if settings self \<noteq> []
        then remote eng (SetSettings ?tmp (settings self)) w else (Inr PNone, w)")
    from settings_stage [OF s1] obtain sett where sett: "extends eng w sett w1"
      "if settings self = [] then sett = [] \<and> o1 = Inr PNone
       else sett = [(SetSettings ?tmp (settings self), o1)]"
      by blast
    have p1: "?P sett" using sett(2) by (auto split: if_splits)
    show ?thesis
    proof (cases o1)
      case (Inl e)
      with s1 run have r: "w' = w1" "res = Inl e" by (simp_all add: reindex_all_def)
      from Inl sett(2) have l: "sett \<noteq> []" "snd (last sett) = Inl e"
        by (auto split: if_splits)
      then have "last sett \<in> set sett" by simp
      with l(2) have "\<not> (\<forall>ev\<in>set sett. \<exists>v. snd ev = Inr v)"
        by (metis sum.distinct(1))
      with l r sett(1) p1 show ?thesis by (intro exI [of _ sett]) simp
    next
      case r1: (Inr r1)
      obtain o2 w2 where s2: "remote eng (ClearIndex ?tmp) w1 = (o2, w2)"
        by (cases "remote eng (ClearIndex ?tmp) w1")
      let ?new = "sett @ [(ClearIndex ?tmp, o2)]"
      have e2: "extends eng w ?new w2"
        using sett(1) extends_remote [OF s2] by (rule extends_trans)
      have p2: "?P ?new" using p1 by simp
      show ?thesis
      proof (cases o2)
        case (Inl e)
        with s1 r1 s2 run have r: "w' = w2" "res = Inl e" by (simp_all add: reindex_all_def)
        have "\<not> (\<forall>ev\<in>set ?new. \<exists>v. snd ev = Inr v)" using Inl by simp
        with r e2 p2 Inl show ?thesis by (intro exI [of _ ?new]) simp
      next
        case (Inr r2)
        with s1 r1 s2 run loop have r: "w' = w2" "res = Inr 0"
          by (simp_all add: reindex_all_def wait_and_move_def)
        with e2 p2 show ?thesis by (intro exI [of _ ?new]) simp
      qed
    qed
  qed
  then obtain new where new: "extends eng w new w'" "?P new"
      "res = Inr 0 \<or> (\<exists>e. res = Inl e \<and> new \<noteq> [] \<and> snd (last new) = Inl e)"
      "(\<forall>ev\<in>set new. \<exists>v. snd ev = Inr v) \<longrightarrow> res = Inr 0"
    by blast
  have tr: "trace w' = trace w @ new" using new(1) by (simp add: extends_def)
  have "\<forall>ev\<in>set new. index_name self \<notin> set (targets (fst ev))"
    using new(2) diff by auto
  with frame new(1) have v: "view (client w') (index_name self) = view (client w) (index_name self)"
    by (rule frame_extends)
  from tr new(2) diff names(1) new(3) new(4) v show ?thesis by blast
qed

theorem reindex_all_empty_stream_witness:
  "init no_affixes Coded (plain_index (FieldsSeq [''title''])) = Inr coded_binding
   \<and> objects_all Coded = []
   \<and> respects_frame store_engine (\<lambda>c. snd c)
   \<and> fst (reindex_all store_engine coded_binding 2 empty_world) = Inr 0
   \<and> (\<exists>new.
           trace (snd (reindex_all store_engine coded_binding 2 empty_world))
             = trace empty_world @ new
         \<and> (\<forall>ev\<in>set new. targets (fst ev) = [tmp_index coded_binding]
                \<and> \<not> is_wait (fst ev) \<and> \<not> is_move (fst ev) \<and> \<not> is_save (fst ev))
         \<and> tmp_index coded_binding \<noteq> index_name coded_binding
         \<and> index coded_binding = index_name coded_binding
         \<and> snd (client (snd (reindex_all store_engine coded_binding 2 empty_world)))
              (index_name coded_binding)
            = snd (client empty_world) (index_name coded_binding))"
proof -
  have i: "init no_affixes Coded (plain_index (FieldsSeq [''title''])) = Inr coded_binding"
    by (rule init_coded)
  have e: "objects_all Coded = []" by (simp add: Coded_def)
  have f: "fst (reindex_all store_engine coded_binding 2 empty_world) = Inr 0"
    by (simp add: run_defs)
  from reindex_all_empty_stream [OF i e store_engine_frame run_pair [OF f]]
  have "\<exists>new.
           trace (snd (reindex_all store_engine coded_binding 2 empty_world))
             = trace empty_world @ new
         \<and> (\<forall>ev\<in>set new. targets (fst ev) = [tmp_index coded_binding]
                \<and> \<not> is_wait (fst ev) \<and> \<not> is_move (fst ev) \<and> \<not> is_save (fst ev))
         \<and> tmp_index coded_binding \<noteq> index_name coded_binding
         \<and> index coded_binding = index_name coded_binding
         \<and> snd (client (snd (reindex_all store_engine coded_binding 2 empty_world)))
              (index_name coded_binding)
            = snd (client empty_world) (index_name coded_binding)"
    by blast
  with i e store_engine_frame f show ?thesis by blast
qed

section \<open>The in-place rebuild\<close>

text \<open>
  Claim C5. When \<^verbatim>\<open>index_all\<close> returns, the calls it made are: \<^verbatim>\<open>set_settings\<close>
  on the primary index when the declared settings are not empty, then one
  \<^verbatim>\<open>clear_index\<close> on the primary index, then only \<^verbatim>\<open>save_objects\<close> calls on the
  primary index. So the index is cleared exactly once, after the settings and before
  every upload.
\<close>

theorem index_all_clears_first:
  assumes init: "init conf m decl = Inr self"
      and run: "index_all eng self bs w = (Inr n, w')"
  shows "\<exists>new sett r saves.
           trace w' = trace w @ new
         \<and> new = sett @ [(ClearIndex (index self), Inr r)] @ saves
         \<and> index self = index_name self
         \<and> length (filter (\<lambda>ev. is_clear (fst ev)) new) = 1
         \<and> (if settings self = [] then sett = []
             else \<exists>r1. sett = [(SetSettings (index self) (settings self), Inr r1)])
         \<and> (\<forall>ev\<in>set saves. \<exists>b v. ev = (SaveObjects (index self) b, Inr v))
         \<and> (\<forall>ev\<in>set new. is_save (fst ev) \<longrightarrow> ev \<in> set saves)"
proof -
  from index_all_ok [OF run] obtain sett r2 saves where
    ok: "extends eng w (sett @ (ClearIndex (index self), Inr r2) # saves) w'"
      "if settings self = [] then sett = []
       else \<exists>r1. sett = [(SetSettings (index self) (settings self), Inr r1)]"
      "\<forall>ev\<in>set saves. \<exists>b v. ev = (SaveObjects (index self) b, Inr v)"
    by blast
  let ?new = "sett @ [(ClearIndex (index self), Inr r2)] @ saves"
  have tr: "trace w' = trace w @ ?new" using ok(1) by (simp add: extends_def)
  have "filter (\<lambda>ev. is_clear (fst ev)) sett = []"
    using ok(2) by (auto split: if_splits)
  moreover have "filter (\<lambda>ev. is_clear (fst ev)) saves = []"
    using ok(3) by (auto simp: filter_empty_conv)
  ultimately have cnt: "length (filter (\<lambda>ev. is_clear (fst ev)) ?new) = 1" by simp
  have sv: "\<forall>ev\<in>set ?new. is_save (fst ev) \<longrightarrow> ev \<in> set saves"
    using ok(2) by (auto split: if_splits)
  have nm: "index self = index_name self" using init_names(1) [OF init] .
  from tr nm cnt ok(2) ok(3) sv show ?thesis by blast
qed

theorem index_all_clears_first_witness:
  "init no_affixes Article ArticleIndex = Inr article_binding
   \<and> fst (index_all store_engine article_binding 2 empty_world) = Inr 3
   \<and> (\<exists>new sett r saves.
           trace (snd (index_all store_engine article_binding 2 empty_world))
             = trace empty_world @ new
         \<and> new = sett @ [(ClearIndex (index article_binding), Inr r)] @ saves
         \<and> index article_binding = index_name article_binding
         \<and> length (filter (\<lambda>ev. is_clear (fst ev)) new) = 1
         \<and> (if settings article_binding = [] then sett = []
             else \<exists>r1. sett = [(SetSettings (index article_binding) (settings article_binding), Inr r1)])
         \<and> (\<forall>ev\<in>set saves. \<exists>b v. ev = (SaveObjects (index article_binding) b, Inr v))
         \<and> (\<forall>ev\<in>set new. is_save (fst ev) \<longrightarrow> ev \<in> set saves))"
proof -
  have i: "init no_affixes Article ArticleIndex = Inr article_binding"
    by (rule init_article)
  have g: "fst (index_all store_engine article_binding 2 empty_world) = Inr 3"
    by (simp add: run_defs)
  from index_all_clears_first [OF i run_pair [OF g]] i g show ?thesis by simp
qed

end
